theory Spec2Isabelle
  imports Main
begin

section \<open>JavaScript values\<close>

text \<open>
  The calendar library is written in JavaScript. Its events are plain objects, read and
  copied property by property, so an event is modelled as a finite map from property
  names to values. Numbers are the integers together with \<open>NaN\<close>: every number the
  modelled functions compute is an integer count or a millisecond time stamp, and the
  arithmetic is exact (fractions, infinities and the rounding of numbers beyond \<open>2^53\<close>
  are outside the model). A \<open>Date\<close> object is its time value, the
  milliseconds since the epoch or \<open>NaN\<close> for an invalid date; a time value is at most
  \<open>8.64e15\<close> in magnitude, and every operation that makes a date applies \<open>TimeClip\<close>.
  Strings are lists of characters, of which the ASCII ones are interpreted: letter case
  and white space are the ASCII ones, and text beyond ASCII is outside the model.
\<close>

datatype num = NaN | Num int

record rule =
  freq :: "string option"
  count :: "num option"
  until :: "num option"
  interval :: "num option"
  byDay :: "string list option"
  byMonthDay :: "num list option"
  byMonth :: "num list option"
  wkst :: "string option"
  other :: "(string \<times> string) list"

datatype jsval =
    VUndefined
  | VNull
  | VBool bool
  | VNum num
  | VStr string
  | VDate num
  | VArr "jsval list"
  | VRule rule

type_synonym event = "string \<rightharpoonup> jsval"

text \<open>Reading a property: an absent property reads as \<open>undefined\<close>.\<close>

definition propOf :: "event \<Rightarrow> string \<Rightarrow> jsval" where
  "propOf e k = (case e k of None \<Rightarrow> VUndefined | Some v \<Rightarrow> v)"

text \<open>ToBoolean: what \<open>if (v)\<close>, \<open>!v\<close> and \<open>v || w\<close> test.\<close>

fun truthy :: "jsval \<Rightarrow> bool" where
  "truthy VUndefined = False"
| "truthy VNull = False"
| "truthy (VBool b) = b"
| "truthy (VNum NaN) = False"
| "truthy (VNum (Num n)) = (n \<noteq> 0)"
| "truthy (VStr s) = (s \<noteq> [])"
| "truthy (VDate t) = True"
| "truthy (VArr xs) = True"
| "truthy (VRule r) = True"

text \<open>The relational operators on numbers: every comparison with \<open>NaN\<close> is false.\<close>

fun num_lt :: "num \<Rightarrow> num \<Rightarrow> bool" where
  "num_lt (Num a) (Num b) = (a < b)"
| "num_lt _ _ = False"

fun num_le :: "num \<Rightarrow> num \<Rightarrow> bool" where
  "num_le (Num a) (Num b) = (a \<le> b)"
| "num_le _ _ = False"

definition num_gt :: "num \<Rightarrow> num \<Rightarrow> bool" where
  "num_gt a b = num_lt b a"

definition num_ge :: "num \<Rightarrow> num \<Rightarrow> bool" where
  "num_ge a b = num_le b a"

fun num_add :: "num \<Rightarrow> num \<Rightarrow> num" where
  "num_add (Num a) (Num b) = Num (a + b)"
| "num_add _ _ = NaN"

fun num_sub :: "num \<Rightarrow> num \<Rightarrow> num" where
  "num_sub (Num a) (Num b) = Num (a - b)"
| "num_sub _ _ = NaN"

text \<open>
  What the host environment decides: the offset of local time from UTC in milliseconds,
  which depends on the moment (daylight saving) and is given once for a UTC time value
  and once for a local one, as the language standard has it (\<open>LocalTZA\<close> with the
  flag \<open>isUTC\<close> true and false); the reading of the clock; the implementation-defined
  conversions of a value that is not a number, a date, a boolean, \<open>null\<close> or
  \<open>undefined\<close> (a free-form date text, say) to a time value, of a string that is not
  a plain decimal numeral to a number, and of an object to its text; the text of a
  number beyond the safe integers, which depends on its floating-point representation;
  and whether two object values are the same object, which their contents do not tell.
\<close>

record host =
  tza_utc :: "int \<Rightarrow> int"
  tza_local :: "int \<Rightarrow> int"
  now :: int
  date_parse :: "jsval \<Rightarrow> num"
  string_to_number :: "string \<Rightarrow> num"
  object_to_string :: "jsval \<Rightarrow> string"
  number_to_string :: "int \<Rightarrow> string"
  same_object :: "jsval \<Rightarrow> jsval \<Rightarrow> bool"

text \<open>\<open>TimeClip\<close>: a time beyond the range of \<open>Date\<close> makes an invalid date.\<close>

definition TimeClip :: "int \<Rightarrow> num" where
  "TimeClip t = (if \<bar>t\<bar> \<le> 8640000000000000 then Num t else NaN)"

fun clip :: "num \<Rightarrow> num" where
  "clip (Num t) = TimeClip t"
| "clip NaN = NaN"

text \<open>\<open>new Date(v)\<close> for one argument; a date is copied, a number is clipped.\<close>

fun newDate :: "host \<Rightarrow> jsval \<Rightarrow> num" where
  "newDate h (VDate t) = t"
| "newDate h (VNum n) = clip n"
| "newDate h VUndefined = NaN"
| "newDate h VNull = Num 0"
| "newDate h (VBool b) = Num (if b then 1 else 0)"
| "newDate h v = clip (date_parse h v)"

text \<open>
  The operator \<open>===\<close>: \<open>NaN\<close> equals nothing, two objects are equal when they are
  the same object, and other values are equal when they are the same value.
\<close>

fun is_object :: "jsval \<Rightarrow> bool" where
  "is_object (VDate t) = True"
| "is_object (VArr xs) = True"
| "is_object (VRule r) = True"
| "is_object v = False"

definition strict_equal :: "host \<Rightarrow> jsval \<Rightarrow> jsval \<Rightarrow> bool" where
  "strict_equal h a b =
     (if a = VNum NaN \<or> b = VNum NaN then False
      else if is_object a \<and> is_object b then same_object h a b
      else a = b)"

text \<open>\<open>String.prototype.toUpperCase\<close> and \<open>toLowerCase\<close> on ASCII letters.\<close>

definition upper_char :: "char \<Rightarrow> char" where
  "upper_char c =
     (case map_of (zip ''abcdefghijklmnopqrstuvwxyz'' ''ABCDEFGHIJKLMNOPQRSTUVWXYZ'') c of
        None \<Rightarrow> c | Some d \<Rightarrow> d)"

definition lower_char :: "char \<Rightarrow> char" where
  "lower_char c =
     (case map_of (zip ''ABCDEFGHIJKLMNOPQRSTUVWXYZ'' ''abcdefghijklmnopqrstuvwxyz'') c of
        None \<Rightarrow> c | Some d \<Rightarrow> d)"

definition toUpperCase :: "string \<Rightarrow> string" where
  "toUpperCase s = map upper_char s"

definition toLowerCase :: "string \<Rightarrow> string" where
  "toLowerCase s = map lower_char s"

section \<open>The event store (calendar-core.js)\<close>

text \<open>
  \<open>CalendarCore\<close> holds one mutable array \<open>this.events\<close>; each method is modelled as
  a function of that array, and a method that assigns to it returns the new array.
\<close>

definition addEvents :: "event list \<Rightarrow> event list \<Rightarrow> event list" where
  "addEvents events new = events @ new"

text \<open>
  \<open>getConflictingEvents\<close>: an early return on a query without start or end, then a
  filter with three tests in the source's order.
\<close>

definition getConflictingEvents :: "host \<Rightarrow> event list \<Rightarrow> event \<Rightarrow> event list" where
  "getConflictingEvents h events ev =
     (if \<not> truthy (propOf ev ''start'') \<or> \<not> truthy (propOf ev ''end'') then []
      else
        let eventStart = newDate h (propOf ev ''start'');
            eventEnd = newDate h (propOf ev ''end'')
        in filter (\<lambda>e.
             if strict_equal h (propOf e ''uid'') (propOf ev ''uid'') then False
             else if \<not> truthy (propOf e ''end'') then False
             else
               let eStart = newDate h (propOf e ''start'');
                   eEnd = newDate h (propOf e ''end'')
               in num_lt eventStart eEnd \<and> num_gt eventEnd eStart) events)"

text \<open>
  \<open>getEventsByStatus\<close>: the query is upper-cased, the stored status is not; \<open>===\<close>
  against a string is equality of values.
\<close>

definition getEventsByStatus :: "event list \<Rightarrow> string \<Rightarrow> event list" where
  "getEventsByStatus events status =
     (let upperStatus = toUpperCase status
      in filter (\<lambda>event. propOf event ''status'' = VStr upperStatus) events)"

section \<open>The event manager (event-manager.js)\<close>

text \<open>A thrown \<open>Error\<close> is a value carrying its message.\<close>

datatype error = Error string | TypeError string

text \<open>\<open>Array.prototype.findIndex\<close>; the source's \<open>-1\<close> is \<open>None\<close>.\<close>

fun findIndex :: "('a \<Rightarrow> bool) \<Rightarrow> 'a list \<Rightarrow> nat option" where
  "findIndex p [] = None"
| "findIndex p (x # xs) =
     (if p x then Some 0 else map_option Suc (findIndex p xs))"

text \<open>
  \<open>updateEvent\<close> returns the updated event (or \<open>null\<close>, here \<open>None\<close>) together
  with the store after the call. The object spread \<open>{...a, ...b, uid: a.uid}\<close> is the
  map \<open>a\<close> overridden by \<open>b\<close>, with \<open>uid\<close> set last.
\<close>

definition updateEvent ::
  "event list \<Rightarrow> string \<Rightarrow> event \<Rightarrow> error + (event option \<times> event list)" where
  "updateEvent events uid updates =
     (if uid = [] then Inl (Error ''UID is required to update an event'')
      else case findIndex (\<lambda>e. propOf e ''uid'' = VStr uid) events of
        None \<Rightarrow> Inr (None, events)
      | Some index \<Rightarrow>
          let updatedEvent =
                ((events ! index) ++ updates)(''uid'' \<mapsto> propOf (events ! index) ''uid'')
          in Inr (Some updatedEvent, events[index := updatedEvent]))"



section \<open>Time values and dates (the ECMAScript \<open>Date\<close> object)\<close>

text \<open>
  The library computes with the host's \<open>Date\<close>. Its day and time arithmetic is the
  one of the language standard (sections "Time Values and Time Range" to "MakeDate"),
  written out here on integers. \<open>YearFromTime\<close> is specified there as the largest year
  whose first day is not after the time value; \<open>YearFromDay\<close> computes it from an
  estimate that is corrected by at most one year, and \<open>YearFromDay_spec\<close> below shows
  that it meets the specification.
\<close>

definition msPerDay :: int where "msPerDay = 86400000"
definition msPerHour :: int where "msPerHour = 3600000"
definition msPerMinute :: int where "msPerMinute = 60000"
definition msPerSecond :: int where "msPerSecond = 1000"

definition Day :: "int \<Rightarrow> int" where
  "Day t = t div msPerDay"

definition TimeWithinDay :: "int \<Rightarrow> int" where
  "TimeWithinDay t = t mod msPerDay"

definition DaysInYear :: "int \<Rightarrow> int" where
  "DaysInYear y =
     (if y mod 4 \<noteq> 0 then 365 else if y mod 100 \<noteq> 0 then 366
      else if y mod 400 \<noteq> 0 then 365 else 366)"

definition DayFromYear :: "int \<Rightarrow> int" where
  "DayFromYear y =
     365 * (y - 1970) + (y - 1969) div 4 - (y - 1901) div 100 + (y - 1601) div 400"

definition YearFromDay :: "int \<Rightarrow> int" where
  "YearFromDay d =
     (let y = 1970 + (400 * d) div 146097
      in if d < DayFromYear y then y - 1
         else if DayFromYear (y + 1) \<le> d then y + 1
         else y)"

definition YearFromTime :: "int \<Rightarrow> int" where
  "YearFromTime t = YearFromDay (Day t)"

definition InLeapYear :: "int \<Rightarrow> int" where
  "InLeapYear t = (if DaysInYear (YearFromTime t) = 366 then 1 else 0)"

definition DayWithinYear :: "int \<Rightarrow> int" where
  "DayWithinYear t = Day t - DayFromYear (YearFromTime t)"

text \<open>
  The day within the year on which month \<open>m\<close> (0 to 11) begins, \<open>l\<close> being 1 in a
  leap year and 0 otherwise; month 12 stands for the end of the year.
\<close>

definition firstDayOfMonth :: "int \<Rightarrow> int \<Rightarrow> int" where
  "firstDayOfMonth l m =
     (if m = 0 then 0 else if m = 1 then 31 else if m = 2 then 59 + l
      else if m = 3 then 90 + l else if m = 4 then 120 + l else if m = 5 then 151 + l
      else if m = 6 then 181 + l else if m = 7 then 212 + l else if m = 8 then 243 + l
      else if m = 9 then 273 + l else if m = 10 then 304 + l else if m = 11 then 334 + l
      else 365 + l)"

definition MonthFromTime :: "int \<Rightarrow> int" where
  "MonthFromTime t =
     (let d = DayWithinYear t; l = InLeapYear t
      in if d < 31 then 0 else if d < 59 + l then 1 else if d < 90 + l then 2
         else if d < 120 + l then 3 else if d < 151 + l then 4 else if d < 181 + l then 5
         else if d < 212 + l then 6 else if d < 243 + l then 7 else if d < 273 + l then 8
         else if d < 304 + l then 9 else if d < 334 + l then 10 else 11)"

text \<open>
  The standard's table for \<open>DateFromTime\<close> subtracts, month by month, one less than
  the day on which the month begins; that is the following.
\<close>

definition DateFromTime :: "int \<Rightarrow> int" where
  "DateFromTime t = DayWithinYear t - firstDayOfMonth (InLeapYear t) (MonthFromTime t) + 1"

definition WeekDay :: "int \<Rightarrow> int" where
  "WeekDay t = (Day t + 4) mod 7"

definition HourFromTime :: "int \<Rightarrow> int" where
  "HourFromTime t = (t div msPerHour) mod 24"

definition MinFromTime :: "int \<Rightarrow> int" where
  "MinFromTime t = (t div msPerMinute) mod 60"

definition SecFromTime :: "int \<Rightarrow> int" where
  "SecFromTime t = (t div msPerSecond) mod 60"

definition MakeTime :: "int \<Rightarrow> int \<Rightarrow> int \<Rightarrow> int \<Rightarrow> int" where
  "MakeTime hour minute sec ms = hour * msPerHour + minute * msPerMinute + sec * msPerSecond + ms"

text \<open>
  \<open>MakeDay\<close>: months beyond 0 to 11 carry into the year, and the date counts on from the
  first of the month, so that date 0 is the last day of the month before and date 32 runs
  into the next month.
\<close>

definition MakeDay :: "int \<Rightarrow> int \<Rightarrow> int \<Rightarrow> int" where
  "MakeDay year month date =
     (let ym = year + month div 12;
          mn = month mod 12
      in DayFromYear ym + firstDayOfMonth (if DaysInYear ym = 366 then 1 else 0) mn + date - 1)"

definition MakeDate :: "int \<Rightarrow> int \<Rightarrow> int" where
  "MakeDate day time = day * msPerDay + time"

text \<open>
  Local time: the offset added to a UTC time is the one in force at that moment, the
  offset taken from a local time is the one the host gives for that local time.
\<close>

definition LocalTime :: "host \<Rightarrow> int \<Rightarrow> int" where
  "LocalTime h t = t + tza_utc h t"

definition UTC :: "host \<Rightarrow> int \<Rightarrow> int" where
  "UTC h t = t - tza_local h t"

text \<open>The methods of a \<open>Date\<close>, on its time value. On an invalid date the getters give \<open>NaN\<close>.\<close>

fun getFullYear :: "host \<Rightarrow> num \<Rightarrow> num" where
  "getFullYear h (Num t) = Num (YearFromTime (LocalTime h t))"
| "getFullYear h NaN = NaN"

fun getMonth :: "host \<Rightarrow> num \<Rightarrow> num" where
  "getMonth h (Num t) = Num (MonthFromTime (LocalTime h t))"
| "getMonth h NaN = NaN"

fun getDate :: "host \<Rightarrow> num \<Rightarrow> num" where
  "getDate h (Num t) = Num (DateFromTime (LocalTime h t))"
| "getDate h NaN = NaN"

fun getDay :: "host \<Rightarrow> num \<Rightarrow> num" where
  "getDay h (Num t) = Num (WeekDay (LocalTime h t))"
| "getDay h NaN = NaN"

fun getUTCFullYear :: "num \<Rightarrow> num" where
  "getUTCFullYear (Num t) = Num (YearFromTime t)"
| "getUTCFullYear NaN = NaN"

fun getUTCMonth :: "num \<Rightarrow> num" where
  "getUTCMonth (Num t) = Num (MonthFromTime t)"
| "getUTCMonth NaN = NaN"

fun getUTCDate :: "num \<Rightarrow> num" where
  "getUTCDate (Num t) = Num (DateFromTime t)"
| "getUTCDate NaN = NaN"

fun getUTCHours :: "num \<Rightarrow> num" where
  "getUTCHours (Num t) = Num (HourFromTime t)"
| "getUTCHours NaN = NaN"

fun getUTCMinutes :: "num \<Rightarrow> num" where
  "getUTCMinutes (Num t) = Num (MinFromTime t)"
| "getUTCMinutes NaN = NaN"

fun getUTCSeconds :: "num \<Rightarrow> num" where
  "getUTCSeconds (Num t) = Num (SecFromTime t)"
| "getUTCSeconds NaN = NaN"

text \<open>
  \<open>setDate\<close>, \<open>setMonth\<close> and \<open>setFullYear\<close> return the new time value of the date
  they change, clipped to the range of \<open>Date\<close>. \<open>setFullYear\<close> starts from time 0
  when the date is invalid.
\<close>

fun setDate :: "host \<Rightarrow> num \<Rightarrow> num \<Rightarrow> num" where
  "setDate h (Num t) (Num dt) =
     (let t' = LocalTime h t
      in TimeClip (UTC h (MakeDate (MakeDay (YearFromTime t') (MonthFromTime t') dt)
                           (TimeWithinDay t'))))"
| "setDate h _ _ = NaN"

fun setMonth :: "host \<Rightarrow> num \<Rightarrow> num \<Rightarrow> num" where
  "setMonth h (Num t) (Num m) =
     (let t' = LocalTime h t
      in TimeClip (UTC h (MakeDate (MakeDay (YearFromTime t') m (DateFromTime t'))
                           (TimeWithinDay t'))))"
| "setMonth h _ _ = NaN"

fun setFullYear :: "host \<Rightarrow> num \<Rightarrow> num \<Rightarrow> num" where
  "setFullYear h t (Num y) =
     (let t' = (case t of NaN \<Rightarrow> 0 | Num t0 \<Rightarrow> LocalTime h t0)
      in TimeClip (UTC h (MakeDate (MakeDay y (MonthFromTime t') (DateFromTime t'))
                           (TimeWithinDay t'))))"
| "setFullYear h t NaN = NaN"


text \<open>
  The constructor \<open>new Date(year, month, ...)\<close> and \<open>Date.UTC\<close> read a year from 0 to
  99 as a year of the twentieth century, and clip the time they make.
\<close>

definition fullYear :: "int \<Rightarrow> int" where
  "fullYear y = (if 0 \<le> y \<and> y \<le> 99 then 1900 + y else y)"

fun DateUTC :: "num \<Rightarrow> num \<Rightarrow> num \<Rightarrow> num \<Rightarrow> num \<Rightarrow> num \<Rightarrow> num" where
  "DateUTC (Num y) (Num m) (Num d) (Num hh) (Num mi) (Num s) =
     TimeClip (MakeDate (MakeDay (fullYear y) m d) (MakeTime hh mi s 0))"
| "DateUTC _ _ _ _ _ _ = NaN"

fun newDateLocal :: "host \<Rightarrow> num \<Rightarrow> num \<Rightarrow> num \<Rightarrow> num \<Rightarrow> num \<Rightarrow> num \<Rightarrow> num" where
  "newDateLocal h (Num y) (Num m) (Num d) (Num hh) (Num mi) (Num s) =
     TimeClip (UTC h (MakeDate (MakeDay (fullYear y) m d) (MakeTime hh mi s 0)))"
| "newDateLocal h _ _ _ _ _ _ = NaN"

text \<open>\<open>new Date(year, month, day)\<close>: local midnight.\<close>

definition newDateYMD :: "host \<Rightarrow> num \<Rightarrow> num \<Rightarrow> num \<Rightarrow> num" where
  "newDateYMD h y m d = newDateLocal h y m d (Num 0) (Num 0) (Num 0)"

section \<open>Strings and numerals\<close>

text \<open>
  \<open>String.prototype.split\<close> and \<open>Array.prototype.join\<close> with a one-character
  separator. Splitting the empty string gives one empty piece.
\<close>

fun split_on :: "char \<Rightarrow> string \<Rightarrow> string list" where
  "split_on c [] = [[]]"
| "split_on c (x # xs) =
     (if x = c then [] # split_on c xs
      else (case split_on c xs of [] \<Rightarrow> [[x]] | p # ps \<Rightarrow> (x # p) # ps))"

fun join :: "char \<Rightarrow> string list \<Rightarrow> string" where
  "join c [] = []"
| "join c [p] = p"
| "join c (p # q # ps) = p @ c # join c (q # ps)"

text \<open>\<open>s.substring(a, b)\<close> for \<open>a \<le> b\<close>; both ends are cut at the length of \<open>s\<close>.\<close>

definition substring :: "string \<Rightarrow> nat \<Rightarrow> nat \<Rightarrow> string" where
  "substring s a b = take (b - a) (drop a s)"

definition endsWith :: "string \<Rightarrow> char \<Rightarrow> bool" where
  "endsWith s c = (s \<noteq> [] \<and> last s = c)"

text \<open>\<open>String(n).padStart(2, '0')\<close> on the text \<open>s\<close> of a number.\<close>

definition padStart2 :: "string \<Rightarrow> string" where
  "padStart2 s = replicate (2 - length s) CHR ''0'' @ s"

text \<open>
  The text of a number, as a template literal, \<open>String\<close> and \<open>join\<close> write it: a
  safe integer (at most \<open>2^53 - 1\<close> in magnitude) is written in decimal digits; the
  text of a larger number follows from its floating-point representation (from
  \<open>1e21\<close> on it is in exponent notation) and is the host's.
\<close>

definition safe_integer :: "int \<Rightarrow> bool" where
  "safe_integer n \<longleftrightarrow> \<bar>n\<bar> \<le> 9007199254740991"

definition digit_char :: "nat \<Rightarrow> char" where
  "digit_char n = ''0123456789'' ! n"

function show_digits :: "int \<Rightarrow> string" where
  "show_digits n =
     (if n < 10 then [digit_char (nat n)]
      else show_digits (n div 10) @ [digit_char (nat (n mod 10))])"
  by pat_completeness auto
termination
  by (relation "measure nat") auto

declare show_digits.simps [simp del]

fun num_to_string :: "host \<Rightarrow> num \<Rightarrow> string" where
  "num_to_string h NaN = ''NaN''"
| "num_to_string h (Num n) =
     (if \<not> safe_integer n then number_to_string h n
      else if n < 0 then CHR ''-'' # show_digits (- n) else show_digits n)"

text \<open>
  \<open>parseInt\<close>: leading white space is skipped, a sign is read, then the longest run of
  digits; no digit gives \<open>NaN\<close>. Without a radix argument a prefix \<open>0x\<close> selects
  base 16, with the radix 10 it does not.
\<close>

definition digit_val :: "char \<Rightarrow> nat option" where
  "digit_val c =
     map_of (zip ''0123456789abcdefABCDEF''
                 [0, 1, 2, 3, 4, 5, 6, 7, 8, 9, 10, 11, 12, 13, 14, 15, 10, 11, 12, 13, 14, 15]) c"

definition is_digit :: "nat \<Rightarrow> char \<Rightarrow> bool" where
  "is_digit radix c = (case digit_val c of None \<Rightarrow> False | Some v \<Rightarrow> v < radix)"

definition is_space :: "char \<Rightarrow> bool" where
  "is_space c = (c \<in> set [CHR 0x09, CHR 0x0A, CHR 0x0B, CHR 0x0C, CHR 0x0D, CHR '' ''])"

definition digits_value :: "nat \<Rightarrow> string \<Rightarrow> int" where
  "digits_value radix ds = foldl (\<lambda>a c. int radix * a + int (the (digit_val c))) 0 ds"

text \<open>The digits after white space and sign are read by \<open>parse_digits\<close>.\<close>

definition parse_digits :: "nat \<Rightarrow> bool \<Rightarrow> string \<Rightarrow> num" where
  "parse_digits radix neg s =
     (let ds = takeWhile (is_digit radix) s
      in if ds = [] then NaN
         else Num (if neg then - digits_value radix ds else digits_value radix ds))"

definition strip_sign :: "string \<Rightarrow> bool \<times> string" where
  "strip_sign s =
     (case s of
        [] \<Rightarrow> (False, [])
      | c # cs \<Rightarrow> if c = CHR ''-'' then (True, cs) else if c = CHR ''+'' then (False, cs)
                 else (False, s))"

definition parseInt10 :: "string \<Rightarrow> num" where
  "parseInt10 s =
     (let (neg, body) = strip_sign (dropWhile is_space s)
      in parse_digits 10 neg body)"

definition parseInt :: "string \<Rightarrow> num" where
  "parseInt s =
     (let (neg, body) = strip_sign (dropWhile is_space s)
      in if take 2 body = ''0x'' \<or> take 2 body = ''0X'' then parse_digits 16 neg (drop 2 body)
         else parse_digits 10 neg body)"

text \<open>
  ToNumber of a string, as the \<open>Date\<close> constructor applies it to a text argument: a
  plain decimal numeral of a safe integer is its value, every other text is left to the
  host.
\<close>

definition toNumber :: "host \<Rightarrow> string \<Rightarrow> num" where
  "toNumber h s =
     (if s \<noteq> [] \<and> list_all (is_digit 10) s \<and> safe_integer (digits_value 10 s)
      then Num (digits_value 10 s)
      else string_to_number h s)"

section \<open>The recurrence engine (recurrence.js)\<close>

definition empty_rule :: rule where
  "empty_rule = \<lparr>freq = None, count = None, until = None, interval = None, byDay = None,
                  byMonthDay = None, byMonth = None, wkst = None, other = []\<rparr>"

text \<open>Assigning a property with a computed name: an existing entry is overwritten in place.\<close>

fun assign :: "string \<Rightarrow> string \<Rightarrow> (string \<times> string) list \<Rightarrow> (string \<times> string) list" where
  "assign k v [] = [(k, v)]"
| "assign k v ((k', v') # al) = (if k = k' then (k, v) # al else (k', v') # assign k v al)"

text \<open>
  \<open>parseRRuleDate\<close>. The eight-character form hands the year and the day to the
  \<open>Date\<close> constructor as text; the form with a \<open>T\<close> reads every field with
  \<open>parseInt\<close>; anything else is left to the host's date parser.
\<close>

definition parseRRuleDate :: "host \<Rightarrow> string \<Rightarrow> num" where
  "parseRRuleDate h dateString =
     (if length dateString = 8 then
        (let year = substring dateString 0 4;
             month = substring dateString 4 6;
             day = substring dateString 6 8
         in newDateYMD h (toNumber h year) (num_sub (parseInt month) (Num 1)) (toNumber h day))
      else if CHR ''T'' \<in> set dateString then
        (let year = substring dateString 0 4;
             month = substring dateString 4 6;
             day = substring dateString 6 8;
             hour = substring dateString 9 11;
             minute = substring dateString 11 13;
             second = substring dateString 13 15
         in if endsWith dateString CHR ''Z'' then
              DateUTC (parseInt year) (num_sub (parseInt month) (Num 1)) (parseInt day)
                (parseInt hour) (parseInt minute) (parseInt second)
            else
              newDateLocal h (parseInt year) (num_sub (parseInt month) (Num 1)) (parseInt day)
                (parseInt hour) (parseInt minute) (parseInt second))
      else newDate h (VStr dateString))"

text \<open>
  One turn of the \<open>forEach\<close> of \<open>parseRRule\<close>: a part without a key or without a value
  is skipped, and the \<open>switch\<close> on the upper-cased key is the chain of tests below. In
  the default branch an assignment of a string to the property \<open>__proto__\<close> of an object
  has no effect.
\<close>

definition parse_part :: "host \<Rightarrow> rule \<Rightarrow> string \<Rightarrow> rule" where
  "parse_part h rule part =
     (case split_on CHR ''='' part of
        key # val # _ \<Rightarrow>
          if key = [] \<or> val = [] then rule
          else
            let upperKey = toUpperCase key
            in if upperKey = ''FREQ'' then rule\<lparr>freq := Some (toUpperCase val)\<rparr>
               else if upperKey = ''COUNT'' then rule\<lparr>count := Some (parseInt10 val)\<rparr>
               else if upperKey = ''UNTIL'' then rule\<lparr>until := Some (parseRRuleDate h val)\<rparr>
               else if upperKey = ''INTERVAL'' then rule\<lparr>interval := Some (parseInt10 val)\<rparr>
               else if upperKey = ''BYDAY'' then rule\<lparr>byDay := Some (split_on CHR '','' val)\<rparr>
               else if upperKey = ''BYMONTHDAY'' then
                 rule\<lparr>byMonthDay := Some (map parseInt10 (split_on CHR '','' val))\<rparr>
               else if upperKey = ''BYMONTH'' then
                 rule\<lparr>byMonth := Some (map parseInt10 (split_on CHR '','' val))\<rparr>
               else if upperKey = ''WKST'' then rule\<lparr>wkst := Some (toUpperCase val)\<rparr>
               else if toLowerCase upperKey = ''__proto__'' then rule
               else rule\<lparr>other := assign (toLowerCase upperKey) val (other rule)\<rparr>
      | _ \<Rightarrow> rule)"

text \<open>
  \<open>parseRRule\<close> on a string: \<open>null\<close> (here \<open>None\<close>) for the empty string; otherwise the
  prefix \<open>RRULE:\<close> is removed in any letter case and the parts between semicolons are
  read from left to right. No statement of the function throws.
\<close>

definition parseRRule :: "host \<Rightarrow> string \<Rightarrow> rule option" where
  "parseRRule h rrule =
     (if rrule = [] then None
      else
        let ruleString = (if toUpperCase (take 6 rrule) = ''RRULE:'' then drop 6 rrule else rrule);
            parts = split_on CHR '';'' ruleString
        in Some (foldl (parse_part h) empty_rule parts))"

definition formatRRuleDate :: "host \<Rightarrow> num \<Rightarrow> string" where
  "formatRRuleDate h date =
     (let year = num_to_string h (getUTCFullYear date);
          month = padStart2 (num_to_string h (num_add (getUTCMonth date) (Num 1)));
          day = padStart2 (num_to_string h (getUTCDate date));
          hour = padStart2 (num_to_string h (getUTCHours date));
          minute = padStart2 (num_to_string h (getUTCMinutes date));
          second = padStart2 (num_to_string h (getUTCSeconds date))
      in year @ month @ day @ ''T'' @ hour @ minute @ second @ ''Z'')"

text \<open>
  \<open>formatRRule\<close>: each \<open>if\<close> of the source pushes at most one part; the tests are the
  truthiness of the field (a \<open>Date\<close> is always truthy).
\<close>

definition formatRRule :: "host \<Rightarrow> rule \<Rightarrow> string" where
  "formatRRule h rule =
     (let parts =
            (case freq rule of Some f \<Rightarrow> if f \<noteq> [] then [''FREQ='' @ toUpperCase f] else []
             | None \<Rightarrow> [])
          @ (case count rule of Some c \<Rightarrow>
               if truthy (VNum c) then [''COUNT='' @ num_to_string h c] else []
             | None \<Rightarrow> [])
          @ (case until rule of Some u \<Rightarrow> [''UNTIL='' @ formatRRuleDate h u] | None \<Rightarrow> [])
          @ (case interval rule of Some i \<Rightarrow>
               if truthy (VNum i) \<and> num_gt i (Num 1) then [''INTERVAL='' @ num_to_string h i] else []
             | None \<Rightarrow> [])
          @ (case byDay rule of Some ds \<Rightarrow>
               if length ds > 0 then [''BYDAY='' @ join CHR '','' ds] else []
             | None \<Rightarrow> [])
          @ (case byMonthDay rule of Some ns \<Rightarrow>
               if length ns > 0 then [''BYMONTHDAY='' @ join CHR '','' (map (num_to_string h) ns)] else []
             | None \<Rightarrow> [])
          @ (case byMonth rule of Some ns \<Rightarrow>
               if length ns > 0 then [''BYMONTH='' @ join CHR '','' (map (num_to_string h) ns)] else []
             | None \<Rightarrow> [])
          @ (case wkst rule of Some w \<Rightarrow> if w \<noteq> [] then [''WKST='' @ w] else []
             | None \<Rightarrow> [])
      in if length parts > 0 then ''RRULE:'' @ join CHR '';'' parts else [])"

text \<open>\<open>getDayOfWeekCode\<close>: an index that is not 0 to 6 reads \<open>undefined\<close>.\<close>

fun getDayOfWeekCode :: "num \<Rightarrow> string option" where
  "getDayOfWeekCode (Num d) =
     (if 0 \<le> d \<and> d < 7 then Some ([''SU'', ''MO'', ''TU'', ''WE'', ''TH'', ''FR'', ''SA''] ! nat d)
      else None)"
| "getDayOfWeekCode NaN = None"

text \<open>
  \<open>matchesRule\<close>; \<open>includes\<close> compares by SameValueZero, under which \<open>NaN\<close> is found
  in a list that holds \<open>NaN\<close>, as equality on \<open>num\<close> has it.
\<close>

definition matchesRule :: "host \<Rightarrow> num \<Rightarrow> rule \<Rightarrow> num \<Rightarrow> bool" where
  "matchesRule h date rrule startDate =
     (if (case byMonth rrule of
            Some ms \<Rightarrow> length ms > 0 \<and> num_add (getMonth h date) (Num 1) \<notin> set ms
          | None \<Rightarrow> False) then False
      else if (case byMonthDay rrule of
                 Some ds \<Rightarrow> length ds > 0 \<and> getDate h date \<notin> set ds
               | None \<Rightarrow> False) then False
      else if (case byDay rrule of
                 Some ds \<Rightarrow> length ds > 0 \<and>
                   (case getDayOfWeekCode (getDay h date) of
                      None \<Rightarrow> True | Some dayOfWeek \<Rightarrow> dayOfWeek \<notin> set ds)
               | None \<Rightarrow> False) then False
      else True)"

fun num_mul :: "num \<Rightarrow> num \<Rightarrow> num" where
  "num_mul (Num a) (Num b) = Num (a * b)"
| "num_mul _ _ = NaN"

text \<open>\<open>getNextOccurrence\<close>; the fourth argument of the source is not used by it.\<close>

definition getNextOccurrence :: "host \<Rightarrow> num \<Rightarrow> string \<Rightarrow> num \<Rightarrow> rule \<Rightarrow> num" where
  "getNextOccurrence h current frq intervl rrule =
     (let next = current
      in if frq = ''DAILY'' then setDate h next (num_add (getDate h next) intervl)
         else if frq = ''WEEKLY'' then
           setDate h next (num_add (getDate h next) (num_mul (Num 7) intervl))
         else if frq = ''MONTHLY'' then setMonth h next (num_add (getMonth h next) intervl)
         else if frq = ''YEARLY'' then setFullYear h next (num_add (getFullYear h next) intervl)
         else setDate h next (num_add (getDate h next) intervl))"

text \<open>
  The text of a value inside a template literal; the text of an object (a date, an
  array) is the host's.
\<close>

fun toStr :: "host \<Rightarrow> jsval \<Rightarrow> string" where
  "toStr h (VStr s) = s"
| "toStr h VUndefined = ''undefined''"
| "toStr h VNull = ''null''"
| "toStr h (VBool b) = (if b then ''true'' else ''false'')"
| "toStr h (VNum n) = num_to_string h n"
| "toStr h v = object_to_string h v"

text \<open>Strict equality of numbers: \<open>NaN\<close> equals nothing.\<close>

fun num_eq :: "num \<Rightarrow> num \<Rightarrow> bool" where
  "num_eq (Num a) (Num b) = (a = b)"
| "num_eq _ _ = False"

text \<open>The constants of one call of \<open>expandRecurrence\<close>, as the loop sees them.\<close>

record walk =
  w_event :: event
  w_rrule :: rule
  w_freq :: string
  w_startDate :: num
  w_eventDuration :: num
  w_interval :: num
  w_maxCount :: num
  w_expandedRangeStart :: "num option"
  w_rangeEnd :: "num option"

text \<open>The occurrence built for the candidate \<open>currentDate\<close>.\<close>

definition occurrence :: "host \<Rightarrow> walk \<Rightarrow> num \<Rightarrow> event" where
  "occurrence h w currentDate =
     (w_event w)
       (''start'' \<mapsto> VDate currentDate,
        ''end'' \<mapsto> (if truthy (VNum (w_eventDuration w))
                      then VDate (clip (num_add currentDate (w_eventDuration w))) else VNull),
        ''uid'' \<mapsto> VStr (toStr h (propOf (w_event w) ''uid'') @ ''_'' @ num_to_string h currentDate),
        ''isRecurring'' \<mapsto> VBool True,
        ''recurringEventId'' \<mapsto> propOf (w_event w) ''uid'',
        ''recurrenceDate'' \<mapsto> VDate currentDate)"

text \<open>The safety check at the end of the loop body.\<close>

definition stalled :: "num \<Rightarrow> event list \<Rightarrow> bool" where
  "stalled currentDate occurrences =
     (length occurrences > 0 \<and>
      (case propOf (last occurrences) ''start'' of
         VDate t \<Rightarrow> num_eq currentDate t | _ \<Rightarrow> False))"

text \<open>
  The \<open>while\<close> loop of \<open>expandRecurrence\<close>. It can run forever, so the function is
  partial: \<open>None\<close> is the loop that does not end.
\<close>

partial_function (option) expand_loop ::
  "host \<Rightarrow> walk \<Rightarrow> num \<Rightarrow> int \<Rightarrow> event list \<Rightarrow> event list option" where
  "expand_loop h w currentDate cnt occurrences =
     (if \<not> num_lt (Num cnt) (w_maxCount w) then Some occurrences
      else if (case until (w_rrule w) of None \<Rightarrow> False | Some u \<Rightarrow> num_gt currentDate u)
        then Some occurrences
      else if (case w_rangeEnd w of None \<Rightarrow> False | Some e \<Rightarrow> num_gt currentDate e)
        then Some occurrences
      else
        let inRange = (case w_expandedRangeStart w of
                         None \<Rightarrow> True | Some s \<Rightarrow> num_ge currentDate s);
            emit = (inRange \<and> matchesRule h currentDate (w_rrule w) (w_startDate w));
            occurrences' = (if emit then occurrences @ [occurrence h w currentDate]
                            else occurrences);
            cnt' = (if emit then cnt + 1 else cnt);
            next = getNextOccurrence h currentDate (w_freq w) (w_interval w) (w_rrule w)
        in if stalled next occurrences' then Some occurrences'
           else expand_loop h w next cnt' occurrences')"

declare expand_loop.simps [code]

text \<open>
  The rule of an event: \<open>event.recurrence\<close> when it is a string is parsed; otherwise it is
  taken as it is when truthy, and \<open>event.rrule\<close> is parsed when not. A truthy value that
  is not a rule object has no \<open>freq\<close> and is treated like no rule; \<open>parseRRule\<close> on a
  truthy value that is not a string fails on its call of \<open>replace\<close>.
\<close>

definition parseRRuleValue :: "host \<Rightarrow> jsval \<Rightarrow> error + rule option" where
  "parseRRuleValue h v =
     (if \<not> truthy v then Inr None
      else case v of
        VStr s \<Rightarrow> Inr (parseRRule h s)
      | _ \<Rightarrow> Inl (TypeError ''rrule.replace is not a function''))"

definition eventRule :: "host \<Rightarrow> event \<Rightarrow> error + rule option" where
  "eventRule h ev =
     (case propOf ev ''recurrence'' of
        VStr s \<Rightarrow> Inr (parseRRule h s)
      | VRule r \<Rightarrow> Inr (Some r)
      | v \<Rightarrow> if truthy v then Inr None else parseRRuleValue h (propOf ev ''rrule''))"

text \<open>
  The constants \<open>expandRecurrence\<close> computes before its loop: the start, the duration
  (0 when the event has no end), the interval (1 when the rule has none), the cap on the
  counter (the rule's count, or \<open>maxOccurrences\<close> when the rule has none) and the
  range start moved back by the duration. \<open>rangeStart\<close> and \<open>rangeEnd\<close> are
  dates or absent.
\<close>

definition walk_of ::
  "host \<Rightarrow> event \<Rightarrow> rule \<Rightarrow> string \<Rightarrow> num option \<Rightarrow> num option \<Rightarrow> num \<Rightarrow> walk" where
  "walk_of h ev rrule f rangeStart rangeEnd maxOccurrences =
     (let startDate = newDate h (propOf ev ''start'');
          eventDuration = (if truthy (propOf ev ''end'')
                           then num_sub (newDate h (propOf ev ''end'')) startDate
                           else Num 0);
          intervl = (case interval rrule of
                       Some i \<Rightarrow> if truthy (VNum i) then i else Num 1
                     | None \<Rightarrow> Num 1);
          maxCount = (case count rrule of
                        Some c \<Rightarrow> if truthy (VNum c) then c else maxOccurrences
                      | None \<Rightarrow> maxOccurrences);
          expandedRangeStart = map_option (\<lambda>s. clip (num_sub s eventDuration)) rangeStart
      in \<lparr>w_event = ev, w_rrule = rrule, w_freq = f, w_startDate = startDate,
          w_eventDuration = eventDuration, w_interval = intervl,
          w_maxCount = maxCount, w_expandedRangeStart = expandedRangeStart,
          w_rangeEnd = rangeEnd\<rparr>)"

text \<open>
  \<open>expandRecurrence\<close>. The result is \<open>None\<close> when the loop does not end, an error
  when the rule cannot be read, and the list of occurrences otherwise; an event without a
  rule, or with a rule without \<open>freq\<close>, is returned alone.
\<close>

definition expandRecurrence ::
  "host \<Rightarrow> event \<Rightarrow> num option \<Rightarrow> num option \<Rightarrow> num \<Rightarrow> (error + event list) option" where
  "expandRecurrence h ev rangeStart rangeEnd maxOccurrences =
     (if \<not> truthy (propOf ev ''recurrence'') \<and> \<not> truthy (propOf ev ''rrule'') then Some (Inr [ev])
      else case eventRule h ev of
        Inl err \<Rightarrow> Some (Inl err)
      | Inr None \<Rightarrow> Some (Inr [ev])
      | Inr (Some rrule) \<Rightarrow>
          (case freq rrule of
             None \<Rightarrow> Some (Inr [ev])
           | Some f \<Rightarrow>
               if f = [] then Some (Inr [ev])
               else
                 let w = walk_of h ev rrule f rangeStart rangeEnd maxOccurrences
                 in map_option Inr (expand_loop h w (w_startDate w) 0 [])))"

text \<open>The simple rule constructors.\<close>

definition daily :: "num \<Rightarrow> num \<Rightarrow> rule" where
  "daily cnt intervl = empty_rule\<lparr>freq := Some ''DAILY'', count := Some cnt, interval := Some intervl\<rparr>"

section \<open>The month grid (calendar-core.js)\<close>











section \<open>Typed views and sample data used in the statements\<close>

text \<open>
  The events whose \<open>start\<close> is a \<open>Date\<close>, valid or not, and whose \<open>end\<close> is a
  \<open>Date\<close>, \<open>null\<close> or absent (the shape the adapters and the event manager give to
  a stored event); and the values on which \<open>===\<close> is equality of values: the
  primitive values other than \<open>NaN\<close>.
\<close>

fun is_date :: "jsval \<Rightarrow> bool" where
  "is_date (VDate t) = True"
| "is_date v = False"

definition dated :: "event \<Rightarrow> bool" where
  "dated x \<longleftrightarrow>
     is_date (propOf x ''start'') \<and>
     (propOf x ''end'' = VNull \<or> propOf x ''end'' = VUndefined \<or> is_date (propOf x ''end''))"

definition plain :: "jsval \<Rightarrow> bool" where
  "plain v \<longleftrightarrow> v \<noteq> VNum NaN \<and> \<not> is_object v"

text \<open>
  The time values a \<open>Date\<close> can hold, and the hosts whose offset from UTC is the same
  \<open>c\<close> at every moment (no daylight saving changes).
\<close>

definition valid_time :: "int \<Rightarrow> bool" where
  "valid_time t \<longleftrightarrow> \<bar>t\<bar> \<le> 8640000000000000"

definition fixed_offset :: "host \<Rightarrow> int \<Rightarrow> bool" where
  "fixed_offset h c \<longleftrightarrow> (\<forall>t. tza_utc h t = c) \<and> (\<forall>t. tza_local h t = c)"

text \<open>
  A host in the UTC zone whose implementation-defined conversions all fail; and a host
  in the zone of New York around November 2025, where daylight saving time ends on the
  2nd at 06:00 UTC (a local time that occurs twice is read as the earlier one).
\<close>

definition utc_host :: host where
  "utc_host = \<lparr>tza_utc = (\<lambda>_. 0), tza_local = (\<lambda>_. 0), now = 0, date_parse = (\<lambda>_. NaN),
                 string_to_number = (\<lambda>_. NaN), object_to_string = (\<lambda>_. []),
                 number_to_string = (\<lambda>_. []), same_object = (\<lambda>_ _. False)\<rparr>"

definition newyork_host :: host where
  "newyork_host =
     utc_host\<lparr>tza_utc := (\<lambda>t. if t < 1762063200000 then - 14400000 else - 18000000),
               tza_local := (\<lambda>t. if t < 1762048800000 then - 14400000 else - 18000000)\<rparr>"

text \<open>
  The three events of the conflict tests (new-features.test.js): 10:00 to 11:00, 10:30 to
  11:30 and 12:00 to 13:00 on 2025-11-05, as UTC time values.
\<close>

definition event1 :: event where
  "event1 = [''uid'' \<mapsto> VStr ''event1'', ''title'' \<mapsto> VStr ''Event 1'',
             ''start'' \<mapsto> VDate (Num 1762336800000), ''end'' \<mapsto> VDate (Num 1762340400000)]"

definition event2 :: event where
  "event2 = [''uid'' \<mapsto> VStr ''event2'', ''title'' \<mapsto> VStr ''Event 2'',
             ''start'' \<mapsto> VDate (Num 1762338600000), ''end'' \<mapsto> VDate (Num 1762342200000)]"

definition event3 :: event where
  "event3 = [''uid'' \<mapsto> VStr ''event3'', ''title'' \<mapsto> VStr ''Event 3'',
             ''start'' \<mapsto> VDate (Num 1762344000000), ''end'' \<mapsto> VDate (Num 1762347600000)]"

text \<open>A rule without \<open>BYMONTH\<close>, \<open>BYMONTHDAY\<close> and \<open>BYDAY\<close> filter.\<close>

definition no_filters :: "rule \<Rightarrow> bool" where
  "no_filters r \<longleftrightarrow>
     (byMonth r = None \<or> byMonth r = Some []) \<and>
     (byMonthDay r = None \<or> byMonthDay r = Some []) \<and>
     (byDay r = None \<or> byDay r = Some [])"

text \<open>
  Sample events for the recurrence engine. An event whose end equals its start, repeated
  daily twice. Event 1 with rule texts as the ICS adapter stores them: daily three
  times; daily under a \<open>BYMONTH\<close> filter that names a month that does not exist; every
  second day, three times; and every 200000000 days, twice. And an event at 10:00 UTC
  on 2025-11-01, repeated daily three times.
\<close>

definition instant_event :: event where
  "instant_event =
     [''uid'' \<mapsto> VStr ''instant'', ''title'' \<mapsto> VStr ''Reminder'',
      ''start'' \<mapsto> VDate (Num 1762336800000), ''end'' \<mapsto> VDate (Num 1762336800000),
      ''recurrence'' \<mapsto> VRule (daily (Num 2) (Num 1))]"

definition count3_event :: event where
  "count3_event = event1(''recurrence'' \<mapsto> VStr ''FREQ=DAILY;COUNT=3'')"

definition month13_event :: event where
  "month13_event = event1(''recurrence'' \<mapsto> VStr ''FREQ=DAILY;BYMONTH=13'')"

definition alternate_event :: event where
  "alternate_event = event1(''recurrence'' \<mapsto> VStr ''FREQ=DAILY;INTERVAL=2;COUNT=3'')"


definition november_event :: event where
  "november_event =
     [''uid'' \<mapsto> VStr ''nov'', ''title'' \<mapsto> VStr ''Daily'',
      ''start'' \<mapsto> VDate (Num 1761991200000), ''recurrence'' \<mapsto> VStr ''FREQ=DAILY;COUNT=3'']"




text \<open>
  The composition \<open>formatRRule(parseRRule(text))\<close>: \<open>formatRRule\<close> reads the property
  \<open>freq\<close> of its argument first, which throws a \<open>TypeError\<close> on \<open>null\<close>.
\<close>

definition reformat :: "host \<Rightarrow> string \<Rightarrow> error + string" where
  "reformat h s =
     (case parseRRule h s of
        None \<Rightarrow> Inl (TypeError ''Cannot read properties of null'')
      | Some r \<Rightarrow> Inr (formatRRule h r))"

text \<open>A sample rule: daily until the first of January of the year 500 (UTC).\<close>

definition year500_rule :: rule where
  "year500_rule = empty_rule\<lparr>freq := Some ''DAILY'', until := Some (Num (- 46388678400000))\<rparr>"






text \<open>
  Event 1 under a yearly rule with a large interval, a filter that never matches and an
  \<open>UNTIL\<close> in 2030.
\<close>

definition leap_event :: event where
  "leap_event =
     event1(''recurrence'' \<mapsto>
       VStr ''FREQ=YEARLY;INTERVAL=300000;BYMONTH=13;UNTIL=20300101T000000Z'')"

text \<open>The part that \<open>formatRRule\<close> pushes for each field, as a list of no or one text.\<close>

definition freq_part :: "string option \<Rightarrow> string list" where
  "freq_part x = (case x of Some f \<Rightarrow> if f \<noteq> [] then [''FREQ='' @ toUpperCase f] else []
                  | None \<Rightarrow> [])"

definition count_part :: "host \<Rightarrow> num option \<Rightarrow> string list" where
  "count_part h x = (case x of Some c \<Rightarrow>
                     if truthy (VNum c) then [''COUNT='' @ num_to_string h c] else []
                   | None \<Rightarrow> [])"

definition until_part :: "host \<Rightarrow> num option \<Rightarrow> string list" where
  "until_part h x = (case x of Some u \<Rightarrow> [''UNTIL='' @ formatRRuleDate h u] | None \<Rightarrow> [])"

definition interval_part :: "host \<Rightarrow> num option \<Rightarrow> string list" where
  "interval_part h x = (case x of Some i \<Rightarrow>
                        if truthy (VNum i) \<and> num_gt i (Num 1) then [''INTERVAL='' @ num_to_string h i]
                        else []
                      | None \<Rightarrow> [])"

definition byDay_part :: "string list option \<Rightarrow> string list" where
  "byDay_part x = (case x of Some ds \<Rightarrow>
                     if length ds > 0 then [''BYDAY='' @ join CHR '','' ds] else []
                   | None \<Rightarrow> [])"

definition byMonthDay_part :: "host \<Rightarrow> num list option \<Rightarrow> string list" where
  "byMonthDay_part h x = (case x of Some ns \<Rightarrow>
                          if length ns > 0
                          then [''BYMONTHDAY='' @ join CHR '','' (map (num_to_string h) ns)] else []
                        | None \<Rightarrow> [])"

definition byMonth_part :: "host \<Rightarrow> num list option \<Rightarrow> string list" where
  "byMonth_part h x = (case x of Some ns \<Rightarrow>
                       if length ns > 0
                       then [''BYMONTH='' @ join CHR '','' (map (num_to_string h) ns)] else []
                     | None \<Rightarrow> [])"

definition wkst_part :: "string option \<Rightarrow> string list" where
  "wkst_part x = (case x of Some w \<Rightarrow> if w \<noteq> [] then [''WKST='' @ w] else [] | None \<Rightarrow> [])"

definition rule_parts :: "host \<Rightarrow> rule \<Rightarrow> string list" where
  "rule_parts h r =
     freq_part (freq r) @ count_part h (count r) @ until_part h (until r)
     @ interval_part h (interval r) @ byDay_part (byDay r) @ byMonthDay_part h (byMonthDay r)
     @ byMonth_part h (byMonth r) @ wkst_part (wkst r)"

text \<open>
  The rules that the text format can carry: the frequency, the weekday codes and the week
  start hold neither separator, the weekday codes do not join to the empty text, the week
  start is in upper case, the numbers are safe integers or \<open>NaN\<close>, and \<open>UNTIL\<close> is
  an invalid date or lies in a year written with four digits.
\<close>

definition text_ok :: "string \<Rightarrow> bool" where
  "text_ok s \<longleftrightarrow> CHR '';'' \<notin> set s \<and> CHR ''='' \<notin> set s"

definition safe_num :: "num \<Rightarrow> bool" where
  "safe_num x = (case x of NaN \<Rightarrow> True | Num n \<Rightarrow> safe_integer n)"

definition until_ok :: "num \<Rightarrow> bool" where
  "until_ok u = (case u of NaN \<Rightarrow> True
                 | Num t \<Rightarrow> 1000 \<le> YearFromTime t \<and> YearFromTime t \<le> 9999)"

definition expressible :: "rule \<Rightarrow> bool" where
  "expressible r \<longleftrightarrow>
     (case freq r of None \<Rightarrow> True | Some f \<Rightarrow> text_ok f) \<and>
     (case count r of None \<Rightarrow> True | Some c \<Rightarrow> safe_num c) \<and>
     (case until r of None \<Rightarrow> True | Some u \<Rightarrow> until_ok u) \<and>
     (case interval r of None \<Rightarrow> True | Some i \<Rightarrow> safe_num i) \<and>
     (case byDay r of None \<Rightarrow> True
      | Some ds \<Rightarrow> ds = [] \<or> (join CHR '','' ds \<noteq> [] \<and> list_all text_ok ds)) \<and>
     (case byMonthDay r of None \<Rightarrow> True | Some ns \<Rightarrow> list_all safe_num ns) \<and>
     (case byMonth r of None \<Rightarrow> True | Some ns \<Rightarrow> list_all safe_num ns) \<and>
     (case wkst r of None \<Rightarrow> True | Some w \<Rightarrow> text_ok w \<and> toUpperCase w = w)"

text \<open>
  A sample rule: weekly on Monday and Wednesday, twelve times, every second week, until
  the end of 2025.
\<close>

definition weekly_rule :: rule where
  "weekly_rule =
     empty_rule\<lparr>freq := Some ''weekly'', count := Some (Num 12),
                 until := Some (Num 1767225599000), interval := Some (Num 2),
                 byDay := Some [''MO'', ''WE''], wkst := Some ''MO''\<rparr>"

section \<open>Properties of the event store\<close>

lemma upper_char_idem: "upper_char (upper_char c) = upper_char c"
  by (simp add: upper_char_def)

lemma toUpperCase_idem: "toUpperCase (toUpperCase s) = toUpperCase s"
  by (simp add: toUpperCase_def upper_char_idem)

text \<open>Against a plain value, \<open>===\<close> is equality of values.\<close>

lemma strict_equal_plain: "plain b \<Longrightarrow> strict_equal h a b \<longleftrightarrow> a = b"
  by (auto simp: strict_equal_def plain_def)

text \<open>The overlap test of the filter, on a stored event and a query with valid times.\<close>

lemma overlap_test:
  assumes "dated x"
  shows "(if \<not> truthy (propOf x ''end'') then False
          else num_lt (Num s) (newDate h (propOf x ''end'')) \<and>
               num_gt (Num e) (newDate h (propOf x ''start'')))
         \<longleftrightarrow> (\<exists>a b. propOf x ''start'' = VDate (Num a) \<and>
                     propOf x ''end'' = VDate (Num b) \<and> s < b \<and> e > a)"
proof -
  from assms obtain ds where ds: "propOf x ''start'' = VDate ds"
    by (cases "propOf x ''start''") (simp_all add: dated_def)
  from assms consider "propOf x ''end'' = VNull" | "propOf x ''end'' = VUndefined"
    | de where "propOf x ''end'' = VDate de"
    by (cases "propOf x ''end''") (simp_all add: dated_def)
  then show ?thesis
  proof cases
    case 3
    then show ?thesis
      by (cases ds; cases de) (simp_all add: ds num_gt_def)
  qed (simp_all add: ds)
qed

text \<open>
  C6. When every stored event has a \<open>Date\<close> as its start and a \<open>Date\<close>, \<open>null\<close> or
  nothing as its end, and the uid of the query event is a plain value (a string, say, or
  absent), then for a query with a valid start \<open>s\<close> and end \<open>e\<close>
  \<open>getConflictingEvents\<close> returns, in store order, exactly the stored events whose uid
  differs from the query's and that have a valid end \<open>b\<close> and a valid start \<open>a\<close> with
  \<open>s < b\<close> and \<open>e > a\<close>. A query whose start or end is \<open>null\<close>, absent or an invalid
  date has no conflicts. In every case the result does not contain the query event
  itself and contains no event without an end.
\<close>

theorem getConflictingEvents_overlap:
  assumes "\<forall>x\<in>set events. dated x" "plain (propOf ev ''uid'')"
  shows "(propOf ev ''start'' = VDate (Num s) \<and> propOf ev ''end'' = VDate (Num e) \<longrightarrow>
            getConflictingEvents h events ev =
              filter (\<lambda>x. propOf x ''uid'' \<noteq> propOf ev ''uid'' \<and>
                         (\<exists>a b. propOf x ''start'' = VDate (Num a) \<and>
                                propOf x ''end'' = VDate (Num b) \<and> s < b \<and> e > a)) events)
       \<and> (propOf ev ''start'' \<in> {VNull, VUndefined, VDate NaN} \<or>
          propOf ev ''end'' \<in> {VNull, VUndefined, VDate NaN} \<longrightarrow>
            getConflictingEvents h events ev = [])
       \<and> ev \<notin> set (getConflictingEvents h events ev)
       \<and> (\<forall>x\<in>set (getConflictingEvents h events ev).
             propOf x ''end'' \<noteq> VNull \<and> propOf x ''end'' \<noteq> VUndefined)"
proof (intro conjI impI)
  assume q: "propOf ev ''start'' = VDate (Num s) \<and> propOf ev ''end'' = VDate (Num e)"
  have "(if strict_equal h (propOf x ''uid'') (propOf ev ''uid'') then False
         else if \<not> truthy (propOf x ''end'') then False
         else num_lt (Num s) (newDate h (propOf x ''end'')) \<and>
              num_gt (Num e) (newDate h (propOf x ''start'')))
        \<longleftrightarrow> (propOf x ''uid'' \<noteq> propOf ev ''uid'' \<and>
             (\<exists>a b. propOf x ''start'' = VDate (Num a) \<and>
                    propOf x ''end'' = VDate (Num b) \<and> s < b \<and> e > a))"
    if "x \<in> set events" for x
  proof -
    from assms(1) that have "dated x" by blast
    note t = overlap_test [OF this, of s h e]
    show ?thesis
      by (cases "propOf x ''uid'' = propOf ev ''uid''")
        (simp_all only: strict_equal_plain [OF assms(2)] t if_True if_False simp_thms)
  qed
  then have "filter (\<lambda>x. if strict_equal h (propOf x ''uid'') (propOf ev ''uid'') then False
         else if \<not> truthy (propOf x ''end'') then False
         else num_lt (Num s) (newDate h (propOf x ''end'')) \<and>
              num_gt (Num e) (newDate h (propOf x ''start''))) events =
              filter (\<lambda>x. propOf x ''uid'' \<noteq> propOf ev ''uid'' \<and>
                         (\<exists>a b. propOf x ''start'' = VDate (Num a) \<and>
                                propOf x ''end'' = VDate (Num b) \<and> s < b \<and> e > a)) events"
    by (rule filter_cong [OF refl])
  moreover from q have "propOf ev ''start'' = VDate (Num s)" "propOf ev ''end'' = VDate (Num e)"
    by simp_all
  then have "getConflictingEvents h events ev =
      filter (\<lambda>x. if strict_equal h (propOf x ''uid'') (propOf ev ''uid'') then False
         else if \<not> truthy (propOf x ''end'') then False
         else num_lt (Num s) (newDate h (propOf x ''end'')) \<and>
              num_gt (Num e) (newDate h (propOf x ''start''))) events"
    unfolding getConflictingEvents_def Let_def
    by (simp only: truthy.simps newDate.simps simp_thms if_False)
  ultimately show "getConflictingEvents h events ev =
              filter (\<lambda>x. propOf x ''uid'' \<noteq> propOf ev ''uid'' \<and>
                         (\<exists>a b. propOf x ''start'' = VDate (Num a) \<and>
                                propOf x ''end'' = VDate (Num b) \<and> s < b \<and> e > a)) events"
    by (rule trans [rotated])
next
  assume "propOf ev ''start'' \<in> {VNull, VUndefined, VDate NaN} \<or>
          propOf ev ''end'' \<in> {VNull, VUndefined, VDate NaN}"
  then show "getConflictingEvents h events ev = []"
    by (auto simp: getConflictingEvents_def Let_def num_gt_def)
next
  show "ev \<notin> set (getConflictingEvents h events ev)"
    by (simp add: getConflictingEvents_def Let_def strict_equal_plain [OF assms(2)])
next
  show "\<forall>x\<in>set (getConflictingEvents h events ev).
             propOf x ''end'' \<noteq> VNull \<and> propOf x ''end'' \<noteq> VUndefined"
    by (auto simp: getConflictingEvents_def Let_def split: if_splits)
qed

text \<open>
  The theorem at the store of the conflict tests: event 1 conflicts with event 2 only, and
  a query without an end conflicts with nothing.
\<close>

theorem getConflictingEvents_overlap_witness:
  "dated event1 \<and> dated event2 \<and> dated event3 \<and> plain (propOf event1 ''uid'')
   \<and> getConflictingEvents utc_host [event1, event2, event3] event1 = [event2]
   \<and> getConflictingEvents utc_host [event1, event2, event3] (event1(''end'' := None)) = []"
proof -
  have w: "\<forall>x\<in>set [event1, event2, event3]. dated x"
    by (simp add: dated_def event1_def event2_def event3_def propOf_def)
  have p: "plain (propOf event1 ''uid'')" "plain (propOf (event1(''end'' := None)) ''uid'')"
    by (simp_all add: plain_def event1_def propOf_def)
  have s: "propOf event1 ''start'' = VDate (Num 1762336800000)
         \<and> propOf event1 ''end'' = VDate (Num 1762340400000)"
    by (simp add: event1_def propOf_def)
  have n: "propOf (event1(''end'' := None)) ''start'' \<in> {VNull, VUndefined, VDate NaN}
         \<or> propOf (event1(''end'' := None)) ''end'' \<in> {VNull, VUndefined, VDate NaN}"
    by (simp add: propOf_def)
  from getConflictingEvents_overlap [OF w p(1), of 1762336800000 1762340400000 utc_host] s
  have "getConflictingEvents utc_host [event1, event2, event3] event1 =
          filter (\<lambda>x. propOf x ''uid'' \<noteq> propOf event1 ''uid'' \<and>
                     (\<exists>a b. propOf x ''start'' = VDate (Num a) \<and>
                            propOf x ''end'' = VDate (Num b) \<and>
                            1762336800000 < b \<and> 1762340400000 > a)) [event1, event2, event3]"
    by blast
  then have "getConflictingEvents utc_host [event1, event2, event3] event1 = [event2]"
    by (simp add: event1_def event2_def event3_def propOf_def)
  moreover from getConflictingEvents_overlap [OF w p(2), of 0 0 utc_host] n
  have "getConflictingEvents utc_host [event1, event2, event3] (event1(''end'' := None)) = []"
    by blast
  ultimately show ?thesis using w p(1) by simp
qed

text \<open>
  A query event whose uid is \<open>NaN\<close> is the one case in which the result holds the query
  itself: \<open>NaN === NaN\<close> is false.
\<close>

lemma getConflictingEvents_NaN_uid:
  "getConflictingEvents utc_host [event1(''uid'' \<mapsto> VNum NaN)] (event1(''uid'' \<mapsto> VNum NaN))
     = [event1(''uid'' \<mapsto> VNum NaN)]"
  by (simp add: getConflictingEvents_def strict_equal_def event1_def propOf_def num_gt_def)

text \<open>
  \<open>getEventsByStatus\<close> returns, in store order, the events whose status is a string that
  is already in upper case and equals the query when letter case is ignored.
\<close>

lemma getEventsByStatus_upper:
  "getEventsByStatus events q =
     filter (\<lambda>x. \<exists>s. propOf x ''status'' = VStr s \<and> s = toUpperCase s \<and>
                     toUpperCase s = toUpperCase q) events"
  unfolding getEventsByStatus_def Let_def
  by (rule filter_cong) (auto simp: toUpperCase_idem)

text \<open>
  C8. A stored status \<open>confirmed\<close> equals the query \<open>CONFIRMED\<close> up to letter case, and
  the event is returned neither for that query nor for any other: the query is
  upper-cased, the stored status is compared as it is.
\<close>

theorem getEventsByStatus_stored_lower_case:
  "toUpperCase ''confirmed'' = toUpperCase ''CONFIRMED''
   \<and> (\<forall>q. getEventsByStatus
             [[''title'' \<mapsto> VStr ''Confirmed'', ''status'' \<mapsto> VStr ''confirmed'']] q = [])"
proof -
  have u: "toUpperCase ''confirmed'' = ''CONFIRMED''" "toUpperCase ''CONFIRMED'' = ''CONFIRMED''"
    by (simp_all add: toUpperCase_def upper_char_def)
  have "toUpperCase q \<noteq> ''confirmed''" for q
  proof
    assume a: "toUpperCase q = ''confirmed''"
    then have "toUpperCase ''confirmed'' = toUpperCase (toUpperCase q)" by simp
    also have "\<dots> = toUpperCase q" by (rule toUpperCase_idem)
    also note a
    finally show False by (simp add: u(1))
  qed
  then have "''confirmed'' \<noteq> toUpperCase q" for q
    by (rule not_sym)
  then show ?thesis
    by (simp add: u getEventsByStatus_def propOf_def Let_def)
qed

section \<open>Properties of the event manager\<close>

lemma findIndex_None: "findIndex p xs = None \<longleftrightarrow> (\<forall>x\<in>set xs. \<not> p x)"
  by (induction xs) auto

lemma findIndex_Some:
  "findIndex p xs = Some i \<Longrightarrow> i < length xs \<and> p (xs ! i) \<and> (\<forall>j<i. \<not> p (xs ! j))"
proof (induction xs arbitrary: i)
  case Nil
  then show ?case by simp
next
  case (Cons x xs)
  show ?case
  proof (cases "p x")
    case True
    with Cons.prems show ?thesis by simp
  next
    case False
    with Cons.prems obtain k where k: "findIndex p xs = Some k" "i = Suc k" by auto
    from Cons.IH [OF k(1)] False k(2) show ?thesis
      by (auto simp: less_Suc_eq_0_disj)
  qed
qed

text \<open>
  C9 (as amended). For a non-empty uid: when no stored event has that uid,
  \<open>updateEvent\<close> returns \<open>null\<close> and leaves the store as it is; otherwise it replaces
  the first stored event \<open>events ! i\<close> with that uid by an event \<open>u\<close>, which it returns,
  such that \<open>u\<close> has the uid of the event it replaces, takes every other property named
  in the patch from the patch, and keeps every property the patch does not name.
\<close>

theorem updateEvent_merge:
  assumes "uid \<noteq> []"
  shows "((\<forall>e\<in>set events. propOf e ''uid'' \<noteq> VStr uid) \<longrightarrow>
            updateEvent events uid updates = Inr (None, events))
       \<and> ((\<exists>e\<in>set events. propOf e ''uid'' = VStr uid) \<longrightarrow>
            (\<exists>i u. i < length events \<and> propOf (events ! i) ''uid'' = VStr uid \<and>
                   (\<forall>j<i. propOf (events ! j) ''uid'' \<noteq> VStr uid) \<and>
                   updateEvent events uid updates = Inr (Some u, events[i := u]) \<and>
                   propOf u ''uid'' = propOf (events ! i) ''uid'' \<and>
                   (\<forall>k. k \<noteq> ''uid'' \<and> k \<in> dom updates \<longrightarrow> u k = updates k) \<and>
                   (\<forall>k. k \<notin> dom updates \<longrightarrow> u k = (events ! i) k)))"
proof (intro conjI impI)
  assume "\<forall>e\<in>set events. propOf e ''uid'' \<noteq> VStr uid"
  then have "findIndex (\<lambda>e. propOf e ''uid'' = VStr uid) events = None"
    by (simp add: findIndex_None)
  with assms show "updateEvent events uid updates = Inr (None, events)"
    by (simp add: updateEvent_def)
next
  assume "\<exists>e\<in>set events. propOf e ''uid'' = VStr uid"
  then have "findIndex (\<lambda>e. propOf e ''uid'' = VStr uid) events \<noteq> None"
    by (simp add: findIndex_None)
  then obtain i where i: "findIndex (\<lambda>e. propOf e ''uid'' = VStr uid) events = Some i"
    by blast
  note fi = findIndex_Some [OF i]
  define u where "u = ((events ! i) ++ updates)(''uid'' \<mapsto> propOf (events ! i) ''uid'')"
  have upd: "updateEvent events uid updates = Inr (Some u, events[i := u])"
    using assms i by (simp add: updateEvent_def u_def Let_def)
  have old: "(events ! i) ''uid'' = Some (VStr uid)"
    using fi by (auto simp: propOf_def split: option.splits)
  have "propOf u ''uid'' = propOf (events ! i) ''uid''"
    by (simp add: u_def propOf_def)
  moreover have "\<forall>k. k \<noteq> ''uid'' \<and> k \<in> dom updates \<longrightarrow> u k = updates k"
    by (auto simp: u_def map_add_def split: option.splits)
  moreover have "\<forall>k. k \<notin> dom updates \<longrightarrow> u k = (events ! i) k"
    using old fi by (auto simp: u_def map_add_def propOf_def domIff split: option.splits)
  ultimately show "\<exists>i u. i < length events \<and> propOf (events ! i) ''uid'' = VStr uid \<and>
                   (\<forall>j<i. propOf (events ! j) ''uid'' \<noteq> VStr uid) \<and>
                   updateEvent events uid updates = Inr (Some u, events[i := u]) \<and>
                   propOf u ''uid'' = propOf (events ! i) ''uid'' \<and>
                   (\<forall>k. k \<noteq> ''uid'' \<and> k \<in> dom updates \<longrightarrow> u k = updates k) \<and>
                   (\<forall>k. k \<notin> dom updates \<longrightarrow> u k = (events ! i) k)"
    using fi upd by blast
qed

text \<open>
  The theorem at a store of three events: a patch that names \<open>title\<close> and \<open>uid\<close>
  changes the title of event 2 and nothing else, and an unknown uid changes nothing.
\<close>

theorem updateEvent_merge_witness:
  "updateEvent [event1, event2, event3] ''event2''
       [''title'' \<mapsto> VStr ''Updated'', ''uid'' \<mapsto> VStr ''different-uid'']
     = Inr (Some (event2(''title'' \<mapsto> VStr ''Updated'')),
            [event1, event2(''title'' \<mapsto> VStr ''Updated''), event3])
   \<and> updateEvent [event1, event2, event3] ''non-existent-uid'' [''title'' \<mapsto> VStr ''Updated'']
     = Inr (None, [event1, event2, event3])"
proof -
  have ne: "''non-existent-uid'' \<noteq> []" by simp
  have "\<forall>e\<in>set [event1, event2, event3]. propOf e ''uid'' \<noteq> VStr ''non-existent-uid''"
    by (simp add: event1_def event2_def event3_def propOf_def)
  with updateEvent_merge [OF ne, of "[event1, event2, event3]" "[''title'' \<mapsto> VStr ''Updated'']"]
  have "updateEvent [event1, event2, event3] ''non-existent-uid'' [''title'' \<mapsto> VStr ''Updated'']
          = Inr (None, [event1, event2, event3])"
    by blast
  moreover have "updateEvent [event1, event2, event3] ''event2''
       [''title'' \<mapsto> VStr ''Updated'', ''uid'' \<mapsto> VStr ''different-uid'']
     = Inr (Some (event2(''title'' \<mapsto> VStr ''Updated'')),
            [event1, event2(''title'' \<mapsto> VStr ''Updated''), event3])"
    by (auto simp: updateEvent_def event1_def event2_def event3_def propOf_def Let_def
          map_add_def fun_eq_iff)
  ultimately show ?thesis by simp
qed

text \<open>
  C9 as stated fails at the empty uid: an event stored with the empty string as its uid
  is not updated, the call throws.
\<close>

theorem updateEvent_empty_uid_throws:
  "updateEvent [[''uid'' \<mapsto> VStr [], ''title'' \<mapsto> VStr ''a'']] [] [''title'' \<mapsto> VStr ''b'']
     = Inl (Error ''UID is required to update an event'')"
  by (simp add: updateEvent_def)




section \<open>Properties of the date arithmetic\<close>

lemma div_bounds:
  fixes a k :: int
  assumes k: "k > 0"
  shows "k * (a div k) \<le> a" and "a < k * (a div k) + k"
proof -
  have "a = k * (a div k) + a mod k" by simp
  moreover have "0 \<le> a mod k" "a mod k < k" using k by simp_all
  ultimately show "k * (a div k) \<le> a" and "a < k * (a div k) + k" by linarith+
qed

lemma div_succ:
  fixes a k :: int
  assumes "1 < k"
  shows "(a + 1) div k = a div k + (if (a + 1) mod k = 0 then 1 else 0)"
proof -
  have r: "0 \<le> a mod k" "a mod k < k" using assms by simp_all
  have o: "1 div k = 0" "1 mod k = 1" using assms by simp_all
  have "(a + 1) div k = a div k + 1 div k + (a mod k + 1 mod k) div k"
    by (rule div_add1_eq)
  then have e: "(a + 1) div k = a div k + (a mod k + 1) div k" by (simp add: o)
  have m: "(a + 1) mod k = (a mod k + 1) mod k" by (simp add: mod_add_left_eq)
  show ?thesis
  proof (cases "a mod k + 1 = k")
    case True
    then show ?thesis using e m assms by simp
  next
    case False
    with r have lt: "a mod k + 1 < k" by linarith
    then have "(a mod k + 1) div k = 0" "(a mod k + 1) mod k = a mod k + 1"
      using r by simp_all
    then show ?thesis using e m r by simp
  qed
qed

lemma mod100_shift: "(y - 1900) mod 100 = y mod 100" for y :: int
proof -
  have "(y - 1900) mod 100 = (y + 100 * (-19)) mod 100" by simp
  also have "\<dots> = y mod 100" by (rule mod_mult_self2)
  finally show ?thesis .
qed

lemma mod400_shift: "(y - 1600) mod 400 = y mod 400" for y :: int
proof -
  have "(y - 1600) mod 400 = (y + 400 * (-4)) mod 400" by simp
  also have "\<dots> = y mod 400" by (rule mod_mult_self2)
  finally show ?thesis .
qed

lemma mod4_shift: "(y - 1968) mod 4 = y mod 4" for y :: int
proof -
  have "(y - 1968) mod 4 = (y + 4 * (-492)) mod 4" by simp
  also have "\<dots> = y mod 4" by (rule mod_mult_self2)
  finally show ?thesis .
qed

lemma mod100_mod4: "y mod 100 = 0 \<Longrightarrow> y mod 4 = 0" for y :: int
proof -
  assume "y mod 100 = 0"
  then have "100 dvd y" by (simp add: dvd_eq_mod_eq_0)
  moreover have "(4::int) dvd 100" by simp
  ultimately have "4 dvd y" by (rule dvd_trans [rotated])
  then show ?thesis by simp
qed

lemma mod400_mod100: "y mod 400 = 0 \<Longrightarrow> y mod 100 = 0" for y :: int
proof -
  assume "y mod 400 = 0"
  then have "400 dvd y" by (simp add: dvd_eq_mod_eq_0)
  moreover have "(100::int) dvd 400" by simp
  ultimately have "100 dvd y" by (rule dvd_trans [rotated])
  then show ?thesis by simp
qed

lemma DayFromYear_Suc: "DayFromYear (y + 1) = DayFromYear y + DaysInYear y"
proof -
  have a: "(y + 1 - 1969) div 4 = (y - 1969) div 4 + (if y mod 4 = 0 then 1 else 0)"
    using div_succ[of 4 "y - 1969"] mod4_shift[of y] by (simp add: algebra_simps)
  have b: "(y + 1 - 1901) div 100 = (y - 1901) div 100 + (if y mod 100 = 0 then 1 else 0)"
    using div_succ[of 100 "y - 1901"] mod100_shift[of y] by (simp add: algebra_simps)
  have c: "(y + 1 - 1601) div 400 = (y - 1601) div 400 + (if y mod 400 = 0 then 1 else 0)"
    using div_succ[of 400 "y - 1601"] mod400_shift[of y] by (simp add: algebra_simps)
  show ?thesis
    unfolding DayFromYear_def DaysInYear_def a b c using mod100_mod4[of y] mod400_mod100[of y] by auto
qed

lemma DayFromYear_bounds:
  shows "146097 * y - 287811596 \<le> 400 * DayFromYear y"
    and "400 * DayFromYear y \<le> 146097 * y - 287810501"
proof -
  define q4 where "q4 = (y - 1969) div 4"
  define q100 where "q100 = (y - 1901) div 100"
  define q400 where "q400 = (y - 1601) div 400"
  have a: "4 * q4 \<le> y - 1969" "y - 1969 < 4 * q4 + 4"
    unfolding q4_def by (rule div_bounds, simp)+
  have b: "100 * q100 \<le> y - 1901" "y - 1901 < 100 * q100 + 100"
    unfolding q100_def by (rule div_bounds, simp)+
  have c: "400 * q400 \<le> y - 1601" "y - 1601 < 400 * q400 + 400"
    unfolding q400_def by (rule div_bounds, simp)+
  have e: "400 * DayFromYear y = 146000 * y - 287620000 + 400 * q4 - 400 * q100 + 400 * q400"
    by (simp add: DayFromYear_def q4_def q100_def q400_def)
  show "146097 * y - 287811596 \<le> 400 * DayFromYear y"
    unfolding e using a b c by linarith
  show "400 * DayFromYear y \<le> 146097 * y - 287810501"
    unfolding e using a b c by linarith
qed

lemma YearFromDay_spec:
  "DayFromYear (YearFromDay d) \<le> d \<and> d < DayFromYear (YearFromDay d + 1)"
proof -
  define n where "n = (400 * d) div 146097"
  define y where "y = 1970 + n"
  have n: "146097 * n \<le> 400 * d" "400 * d < 146097 * n + 146097"
    unfolding n_def by (rule div_bounds, simp)+
  define lo' where "lo' = DayFromYear (y - 1)"
  define hi' where "hi' = DayFromYear (y + 2)"
  have "400 * lo' \<le> 146097 * (y - 1) - 287810501"
    unfolding lo'_def by (rule DayFromYear_bounds)
  then have "400 * lo' \<le> 146097 * n - 145508"
    by (simp add: y_def algebra_simps)
  with n have lo: "lo' \<le> d" by linarith
  have "146097 * (y + 2) - 287811596 \<le> 400 * hi'"
    unfolding hi'_def by (rule DayFromYear_bounds)
  then have "146097 * n + 291688 \<le> 400 * hi'"
    by (simp add: y_def algebra_simps)
  with n have hi: "d < hi'" by linarith
  have s2: "y + 1 + 1 = y + 2" "y - 1 + 1 = y" by simp_all
  show ?thesis
    unfolding YearFromDay_def n_def[symmetric] y_def[symmetric] Let_def
    using lo hi unfolding lo'_def hi'_def by (auto simp: s2)
qed






lemma DayWithinYear_range:
  "0 \<le> DayWithinYear t \<and> DayWithinYear t < DaysInYear (YearFromTime t)"
  using YearFromDay_spec [of "Day t"] DayFromYear_Suc [of "YearFromDay (Day t)"]
  by (simp add: DayWithinYear_def YearFromTime_def)

lemma InLeapYear_cases: "InLeapYear t = 0 \<or> InLeapYear t = 1"
  by (simp add: InLeapYear_def)

lemma DaysInYear_InLeapYear: "DaysInYear (YearFromTime t) = 365 + InLeapYear t"
  by (simp add: InLeapYear_def DaysInYear_def)

lemma MonthFromTime_range: "0 \<le> MonthFromTime t \<and> MonthFromTime t \<le> 11"
  by (simp add: MonthFromTime_def Let_def)

lemma DateFromTime_range: "1 \<le> DateFromTime t \<and> DateFromTime t \<le> 31"
  using DayWithinYear_range [of t] InLeapYear_cases [of t] DaysInYear_InLeapYear [of t]
  unfolding DateFromTime_def MonthFromTime_def firstDayOfMonth_def Let_def
  by (auto split: if_splits)

lemma MakeDay_fields:
  "MakeDay (YearFromTime t) (MonthFromTime t) dt = Day t + dt - DateFromTime t"
proof -
  have m: "MonthFromTime t div 12 = 0" "MonthFromTime t mod 12 = MonthFromTime t"
    using MonthFromTime_range [of t] by simp_all
  have l: "(if DaysInYear (YearFromTime t) = 366 then 1 else 0) = InLeapYear t"
    by (simp add: InLeapYear_def)
  show ?thesis
    by (simp add: MakeDay_def m l DateFromTime_def DayWithinYear_def)
qed

lemma MakeDate_Day: "MakeDate (Day t) (TimeWithinDay t) = t"
  by (simp add: MakeDate_def Day_def TimeWithinDay_def)

lemma MakeDate_shift: "MakeDate (Day t + k) (TimeWithinDay t) = t + k * msPerDay"
  by (simp add: MakeDate_def Day_def TimeWithinDay_def algebra_simps)

text \<open>On a host with a fixed offset, local time is UTC moved by that offset.\<close>

lemma fixed_offset_times:
  assumes "fixed_offset h c"
  shows "LocalTime h t = t + c" "UTC h t = t - c"
  using assms by (simp_all add: fixed_offset_def LocalTime_def UTC_def)

lemma TimeClip_valid: "valid_time t \<Longrightarrow> TimeClip t = Num t"
  by (simp add: TimeClip_def valid_time_def)

lemma TimeClip_cases: "TimeClip t = NaN \<or> TimeClip t = Num t"
  by (simp add: TimeClip_def)

text \<open>
  On such a host, moving a date by \<open>k\<close> days with \<open>setDate(getDate() + k)\<close> adds \<open>k\<close>
  days of time, and the result is clipped.
\<close>

lemma setDate_getDate:
  assumes "fixed_offset h c"
  shows "setDate h (Num t) (num_add (getDate h (Num t)) (Num k)) = TimeClip (t + k * msPerDay)"
  by (simp add: Let_def MakeDay_fields MakeDate_shift fixed_offset_times [OF assms])

section \<open>Properties of the recurrence walk\<close>

text \<open>
  One turn of the loop, for any function \<open>f\<close> in the place of the recursive call: it
  returns the list as it is, or the list after the turn, or what \<open>f\<close> returns on the next
  candidate.
\<close>

lemma loop_body_cases:
  assumes "(if \<not> num_lt (Num c) (w_maxCount w) then Some occs
      else if (case until (w_rrule w) of None \<Rightarrow> False | Some u \<Rightarrow> num_gt cur u)
        then Some occs
      else if (case w_rangeEnd w of None \<Rightarrow> False | Some e \<Rightarrow> num_gt cur e)
        then Some occs
      else
        let inRange = (case w_expandedRangeStart w of
                         None \<Rightarrow> True | Some s \<Rightarrow> num_ge cur s);
            emit = (inRange \<and> matchesRule h cur (w_rrule w) (w_startDate w));
            occurrences' = (if emit then occs @ [occurrence h w cur] else occs);
            cnt' = (if emit then c + 1 else c);
            next = getNextOccurrence h cur (w_freq w) (w_interval w) (w_rrule w)
        in if stalled next occurrences' then Some occurrences'
           else f h w next cnt' occurrences') = Some res"
  shows "res = occs \<or>
         (num_lt (Num c) (w_maxCount w) \<and>
          (\<exists>emit. (res = (if emit then occs @ [occurrence h w cur] else occs) \<or>
                   f h w (getNextOccurrence h cur (w_freq w) (w_interval w) (w_rrule w))
                     (if emit then c + 1 else c)
                     (if emit then occs @ [occurrence h w cur] else occs) = Some res)))"
proof (cases "num_lt (Num c) (w_maxCount w)")
  case False
  with assms show ?thesis by simp
next
  case lt: True
  show ?thesis
  proof (cases "case until (w_rrule w) of None \<Rightarrow> False | Some u \<Rightarrow> num_gt cur u")
    case True
    with assms lt show ?thesis by simp
  next
    case nu: False
    show ?thesis
    proof (cases "case w_rangeEnd w of None \<Rightarrow> False | Some e \<Rightarrow> num_gt cur e")
      case True
      with assms lt nu show ?thesis by simp
    next
      case nr: False
      define emit where "emit = ((case w_expandedRangeStart w of
                         None \<Rightarrow> True | Some s \<Rightarrow> num_ge cur s) \<and>
                       matchesRule h cur (w_rrule w) (w_startDate w))"
      define occs' where "occs' = (if emit then occs @ [occurrence h w cur] else occs)"
      define c' where "c' = (if emit then c + 1 else c)"
      define nxt where "nxt = getNextOccurrence h cur (w_freq w) (w_interval w) (w_rrule w)"
      from assms lt nu nr
      have "(let inRange = (case w_expandedRangeStart w of
                         None \<Rightarrow> True | Some s \<Rightarrow> num_ge cur s);
            emit = (inRange \<and> matchesRule h cur (w_rrule w) (w_startDate w));
            occurrences' = (if emit then occs @ [occurrence h w cur] else occs);
            cnt' = (if emit then c + 1 else c);
            next = getNextOccurrence h cur (w_freq w) (w_interval w) (w_rrule w)
        in if stalled next occurrences' then Some occurrences'
           else f h w next cnt' occurrences') = Some res"
        by (simp only: simp_thms if_False if_True)
      then have "(if stalled nxt occs' then Some occs' else f h w nxt c' occs') = Some res"
        unfolding Let_def emit_def occs'_def c'_def nxt_def .
      then have "res = occs' \<or> f h w nxt c' occs' = Some res"
        by (cases "stalled nxt occs'") auto
      then show ?thesis
        unfolding occs'_def c'_def nxt_def using lt by blast
    qed
  qed
qed

text \<open>
  Whenever the loop returns, it has added at most as many occurrences as the counter
  was short of \<open>maxCount\<close>, and none at all when \<open>maxCount\<close> is not a number.
\<close>

lemma expand_loop_length:
  assumes "expand_loop h w cur c occs = Some res"
  shows "case w_maxCount w of
           Num n \<Rightarrow> int (length res) \<le> int (length occs) + max 0 (n - c)
         | NaN \<Rightarrow> res = occs"
proof (rule expand_loop.raw_induct
    [where P = "\<lambda>h w cur c occs res. case w_maxCount w of
           Num n \<Rightarrow> int (length res) \<le> int (length occs) + max 0 (n - c)
         | NaN \<Rightarrow> res = occs", OF _ assms])
  fix f :: "host \<Rightarrow> walk \<Rightarrow> num \<Rightarrow> int \<Rightarrow> event list \<Rightarrow> event list option"
    and h w cur c occs res
  assume IH: "\<And>h w cur c occs y. f h w cur c occs = Some y \<Longrightarrow>
     (case w_maxCount w of
        Num n \<Rightarrow> int (length y) \<le> int (length occs) + max 0 (n - c)
      | NaN \<Rightarrow> y = occs)"
  assume body: "(if \<not> num_lt (Num c) (w_maxCount w) then Some occs
      else if (case until (w_rrule w) of None \<Rightarrow> False | Some u \<Rightarrow> num_gt cur u)
        then Some occs
      else if (case w_rangeEnd w of None \<Rightarrow> False | Some e \<Rightarrow> num_gt cur e)
        then Some occs
      else
        let inRange = (case w_expandedRangeStart w of
                         None \<Rightarrow> True | Some s \<Rightarrow> num_ge cur s);
            emit = (inRange \<and> matchesRule h cur (w_rrule w) (w_startDate w));
            occurrences' = (if emit then occs @ [occurrence h w cur] else occs);
            cnt' = (if emit then c + 1 else c);
            next = getNextOccurrence h cur (w_freq w) (w_interval w) (w_rrule w)
        in if stalled next occurrences' then Some occurrences'
           else f h w next cnt' occurrences') = Some res"
  from loop_body_cases [where f = f and h = h and w = w and cur = cur and c = c and occs = occs
      and res = res, OF body]
  consider "res = occs"
    | emit where "num_lt (Num c) (w_maxCount w)"
        "res = (if emit then occs @ [occurrence h w cur] else occs)"
    | emit where "num_lt (Num c) (w_maxCount w)"
        "f h w (getNextOccurrence h cur (w_freq w) (w_interval w) (w_rrule w))
           (if emit then c + 1 else c)
           (if emit then occs @ [occurrence h w cur] else occs) = Some res"
    by blast
  then show "case w_maxCount w of
           Num n \<Rightarrow> int (length res) \<le> int (length occs) + max 0 (n - c)
         | NaN \<Rightarrow> res = occs"
  proof cases
    case 1
    then show ?thesis by (cases "w_maxCount w") simp_all
  next
    case 2
    then show ?thesis by (cases "w_maxCount w") auto
  next
    case 3
    from IH [OF 3(2)] 3(1) show ?thesis
      by (cases "w_maxCount w") (auto split: if_splits)
  qed
qed


text \<open>Every element of the result was in the list at the start or is an occurrence built by the loop.\<close>

lemma expand_loop_elements:
  assumes "expand_loop h w cur c occs = Some res"
  shows "\<forall>x\<in>set res. x \<in> set occs \<or> (\<exists>d. x = occurrence h w d)"
proof (rule expand_loop.raw_induct
    [where P = "\<lambda>h w cur c occs res.
       \<forall>x\<in>set res. x \<in> set occs \<or> (\<exists>d. x = occurrence h w d)", OF _ assms])
  fix f :: "host \<Rightarrow> walk \<Rightarrow> num \<Rightarrow> int \<Rightarrow> event list \<Rightarrow> event list option"
    and h w cur c occs res
  assume IH: "\<And>h w cur c occs y. f h w cur c occs = Some y \<Longrightarrow>
     \<forall>x\<in>set y. x \<in> set occs \<or> (\<exists>d. x = occurrence h w d)"
  assume body: "(if \<not> num_lt (Num c) (w_maxCount w) then Some occs
      else if (case until (w_rrule w) of None \<Rightarrow> False | Some u \<Rightarrow> num_gt cur u)
        then Some occs
      else if (case w_rangeEnd w of None \<Rightarrow> False | Some e \<Rightarrow> num_gt cur e)
        then Some occs
      else
        let inRange = (case w_expandedRangeStart w of
                         None \<Rightarrow> True | Some s \<Rightarrow> num_ge cur s);
            emit = (inRange \<and> matchesRule h cur (w_rrule w) (w_startDate w));
            occurrences' = (if emit then occs @ [occurrence h w cur] else occs);
            cnt' = (if emit then c + 1 else c);
            next = getNextOccurrence h cur (w_freq w) (w_interval w) (w_rrule w)
        in if stalled next occurrences' then Some occurrences'
           else f h w next cnt' occurrences') = Some res"
  from loop_body_cases [where f = f and h = h and w = w and cur = cur and c = c and occs = occs
      and res = res, OF body]
  consider "res = occs"
    | emit where "res = (if emit then occs @ [occurrence h w cur] else occs)"
    | emit where
        "f h w (getNextOccurrence h cur (w_freq w) (w_interval w) (w_rrule w))
           (if emit then c + 1 else c)
           (if emit then occs @ [occurrence h w cur] else occs) = Some res"
    by blast
  then show "\<forall>x\<in>set res. x \<in> set occs \<or> (\<exists>d. x = occurrence h w d)"
  proof cases
    case 1
    then show ?thesis by simp
  next
    case 2
    then show ?thesis by auto
  next
    case 3
    from IH [OF 3] show ?thesis by (auto split: if_splits)
  qed
qed

text \<open>
  When every candidate matches and no range start holds candidates back, each turn of
  the loop raises the counter, so the loop returns.
\<close>

lemma expand_loop_returns:
  assumes "\<And>d. matchesRule h d (w_rrule w) (w_startDate w)"
    and "w_expandedRangeStart w = None"
  shows "\<exists>res. expand_loop h w cur c occs = Some res"
proof (cases "w_maxCount w")
  case NaN
  then show ?thesis by (subst expand_loop.simps) simp
next
  case (Num n)
  show ?thesis
  proof (induction "nat (n - c)" arbitrary: cur c occs)
    case 0
    then have "\<not> c < n" by simp
    then show ?case using Num by (subst expand_loop.simps) simp
  next
    case (Suc k)
    then have lt: "c < n" and k: "k = nat (n - (c + 1))" by simp_all
    from Suc(1) [OF k]
    obtain res where
      "expand_loop h w (getNextOccurrence h cur (w_freq w) (w_interval w) (w_rrule w))
         (c + 1) (occs @ [occurrence h w cur]) = Some res"
      by blast
    then show ?case
      using lt Num assms by (subst expand_loop.simps) (simp add: Let_def)
  qed
qed

lemma occurrence_start: "propOf (occurrence h w d) ''start'' = VDate d"
  by (simp add: occurrence_def propOf_def)

lemma occurrence_end:
  "propOf (occurrence h w d) ''end'' =
     (if truthy (VNum (w_eventDuration w)) then VDate (clip (num_add d (w_eventDuration w)))
      else VNull)"
  by (simp add: occurrence_def propOf_def)

lemma no_filters_matchesRule: "no_filters r \<Longrightarrow> matchesRule h d r s"
  by (auto simp: no_filters_def matchesRule_def)

text \<open>
  A daily walk without bounds and filters on a host with a fixed offset: from a valid
  candidate \<open>t\<close> it adds one occurrence every \<open>k\<close> days until the counter reaches
  \<open>maxCount\<close>, provided the last of these candidates is still a valid time.
\<close>

lemma expand_loop_daily:
  assumes "until (w_rrule w) = None" "w_rangeEnd w = None" "w_expandedRangeStart w = None"
    and "no_filters (w_rrule w)" "w_freq w = ''DAILY''" "w_interval w = Num k" "1 \<le> k"
    and "w_maxCount w = Num n" "fixed_offset h z"
  shows "valid_time t \<Longrightarrow> valid_time (t + (n - c - 1) * k * msPerDay) \<Longrightarrow>
         expand_loop h w (Num t) c occs =
           Some (occs @ map (\<lambda>i. occurrence h w (Num (t + int i * k * msPerDay)))
                          [0..<nat (n - c)])"
proof (induction "nat (n - c)" arbitrary: t c occs)
  case 0
  then have "\<not> c < n" by simp
  then show ?case using assms(8) 0 by (subst expand_loop.simps) simp
next
  case (Suc j)
  then have lt: "c < n" and j: "j = nat (n - (c + 1))" and sj: "nat (n - c) = Suc j"
    by simp_all
  define nxt where "nxt = TimeClip (t + k * msPerDay)"
  have nxt: "getNextOccurrence h (Num t) (w_freq w) (w_interval w) (w_rrule w) = nxt"
    using assms(5,6)
    by (simp add: getNextOccurrence_def setDate_getDate [OF assms(9)] nxt_def
          del: setDate.simps getDate.simps num_add.simps)
  have ns: "\<not> stalled nxt (occs @ [occurrence h w (Num t)])"
    using assms(7) TimeClip_cases [of "t + k * msPerDay"]
    by (auto simp: stalled_def occurrence_start msPerDay_def nxt_def)
  have step: "expand_loop h w (Num t) c occs =
          expand_loop h w nxt (c + 1) (occs @ [occurrence h w (Num t)])"
    using lt assms(1-4,8) nxt ns
    by (subst expand_loop.simps) (simp add: Let_def no_filters_matchesRule)
  show ?case
  proof (cases "j = 0")
    case True
    then have "\<not> c + 1 < n" using j by simp
    then have "expand_loop h w nxt (c + 1) (occs @ [occurrence h w (Num t)])
                 = Some (occs @ [occurrence h w (Num t)])"
      using assms(8) by (subst expand_loop.simps) simp
    then show ?thesis
      unfolding step sj True by simp
  next
    case False
    then have m: "1 \<le> n - c - 1" using j by simp
    have "k * msPerDay \<le> (n - c - 1) * k * msPerDay"
      using m assms(7) by (simp add: msPerDay_def)
    moreover have "0 \<le> k * msPerDay" using assms(7) by (simp add: msPerDay_def)
    ultimately have v: "valid_time (t + k * msPerDay)"
      using Suc.prems by (simp add: valid_time_def)
    have v': "valid_time (t + k * msPerDay + (n - (c + 1) - 1) * k * msPerDay)"
    proof -
      have e: "t + k * msPerDay + (n - (c + 1) - 1) * k * msPerDay
                 = t + (n - c - 1) * k * msPerDay"
        by (simp add: algebra_simps)
      show ?thesis unfolding e by (rule Suc.prems(2))
    qed
    have n': "nxt = Num (t + k * msPerDay)"
      by (simp add: nxt_def TimeClip_valid [OF v])
    have "expand_loop h w nxt (c + 1) (occs @ [occurrence h w (Num t)])
          = Some ((occs @ [occurrence h w (Num t)]) @
              map (\<lambda>i. occurrence h w (Num (t + k * msPerDay + int i * k * msPerDay)))
                [0..<nat (n - (c + 1))])"
      unfolding n' by (rule Suc(1) [OF j v v'])
    also have "(occs @ [occurrence h w (Num t)]) @
          map (\<lambda>i. occurrence h w (Num (t + k * msPerDay + int i * k * msPerDay)))
            [0..<nat (n - (c + 1))]
        = occs @ map (\<lambda>i. occurrence h w (Num (t + int i * k * msPerDay))) [0..<nat (n - c)]"
      unfolding sj j [symmetric]
      by (simp add: upt_rec [of 0 "Suc j"] map_Suc_upt [symmetric] del: upt_Suc
            add: algebra_simps)
    finally show ?thesis unfolding step .
  qed
qed

text \<open>
  An event has a rule when its \<open>recurrence\<close> is a rule object or a rule text, or when
  it has none and its \<open>rrule\<close> is a rule text; one of the two properties is then truthy.
\<close>

lemma eventRule_truthy:
  assumes "eventRule h ev = Inr (Some r)"
  shows "truthy (propOf ev ''recurrence'') \<or> truthy (propOf ev ''rrule'')"
  using assms
  by (cases "propOf ev ''recurrence''"; cases "propOf ev ''rrule''")
    (auto simp: eventRule_def parseRRuleValue_def parseRRule_def split: if_splits)

text \<open>The call of \<open>expandRecurrence\<close> on an event that has a rule with a frequency.\<close>

lemma expandRecurrence_rule:
  assumes "eventRule h ev = Inr (Some r)" "freq r = Some f" "f \<noteq> []"
  shows "expandRecurrence h ev rs re m =
           map_option Inr (expand_loop h (walk_of h ev r f rs re m)
                             (newDate h (propOf ev ''start'')) 0 [])"
  using assms eventRule_truthy [OF assms(1)]
  by (auto simp: expandRecurrence_def walk_of_def Let_def)

lemma walk_of_fields:
  "w_event (walk_of h ev r f rs re m) = ev"
  "w_rrule (walk_of h ev r f rs re m) = r"
  "w_freq (walk_of h ev r f rs re m) = f"
  "w_startDate (walk_of h ev r f rs re m) = newDate h (propOf ev ''start'')"
  "w_rangeEnd (walk_of h ev r f rs re m) = re"
  "w_expandedRangeStart (walk_of h ev r f None re m) = None"
  "w_maxCount (walk_of h ev r f rs re m) =
     (case count r of Some c \<Rightarrow> if truthy (VNum c) then c else m | None \<Rightarrow> m)"
  "w_interval (walk_of h ev r f rs re m) =
     (case interval r of Some i \<Rightarrow> if truthy (VNum i) then i else Num 1 | None \<Rightarrow> Num 1)"
  "w_eventDuration (walk_of h ev r f rs re m) =
     (if truthy (propOf ev ''end'')
      then num_sub (newDate h (propOf ev ''end'')) (newDate h (propOf ev ''start''))
      else Num 0)"
  by (simp_all add: walk_of_def Let_def)

text \<open>
  The whole call for a daily rule with interval \<open>k\<close> (or without an interval, which
  is read as 1) and count \<open>n\<close>, without \<open>UNTIL\<close> and filters, on an event with a valid
  start and over an unbounded range.
\<close>

lemma expandRecurrence_daily_unbounded:
  assumes "eventRule h ev = Inr (Some r)" "propOf ev ''start'' = VDate (Num s)"
    and "freq r = Some ''DAILY''" "interval r = Some (Num k) \<or> interval r = None \<and> k = 1"
    and "count r = Some (Num n)" "until r = None" "no_filters r" "1 \<le> k" "1 \<le> n"
    and "fixed_offset h z" "valid_time s" "valid_time (s + (n - 1) * k * msPerDay)"
  shows "expandRecurrence h ev None None m =
           Some (Inr (map (\<lambda>i. occurrence h (walk_of h ev r ''DAILY'' None None m)
                                  (Num (s + int i * k * msPerDay))) [0..<nat n]))"
proof -
  let ?w = "walk_of h ev r ''DAILY'' None None m"
  have i: "w_interval ?w = Num k"
    using assms(4,8) by (auto simp: walk_of_fields)
  have c: "w_maxCount ?w = Num n"
    using assms(5,9) by (simp add: walk_of_fields)
  have v: "valid_time (s + (n - 0 - 1) * k * msPerDay)"
    using assms(12) by simp
  have "expand_loop h ?w (Num s) 0 [] =
          Some ([] @ map (\<lambda>i. occurrence h ?w (Num (s + int i * k * msPerDay)))
                       [0..<nat (n - 0)])"
    using assms(6,7)
    by (intro expand_loop_daily [OF _ _ _ _ _ i assms(8) c assms(10) assms(11) v])
      (simp_all add: walk_of_fields)
  then show ?thesis
    using assms(2,3) by (simp add: expandRecurrence_rule [OF assms(1), where f = "''DAILY''"])
qed


text \<open>
  The rules that the sample texts are parsed to, and the times of the samples.
\<close>

lemma sample_rules:
  "eventRule utc_host alternate_event
     = Inr (Some (empty_rule\<lparr>freq := Some ''DAILY'', interval := Some (Num 2),
                              count := Some (Num 3)\<rparr>))"
  "eventRule utc_host count3_event
     = Inr (Some (empty_rule\<lparr>freq := Some ''DAILY'', count := Some (Num 3)\<rparr>))"
  "eventRule utc_host month13_event
     = Inr (Some (empty_rule\<lparr>freq := Some ''DAILY'', byMonth := Some [Num 13]\<rparr>))"
  "eventRule utc_host instant_event = Inr (Some (daily (Num 2) (Num 1)))"
  by code_simp+

lemma sample_starts:
  "propOf alternate_event ''start'' = VDate (Num 1762336800000)"
  "propOf count3_event ''start'' = VDate (Num 1762336800000)"
  "propOf month13_event ''start'' = VDate (Num 1762336800000)"
  "propOf instant_event ''start'' = VDate (Num 1762336800000)"
  by (simp_all add: propOf_def alternate_event_def count3_event_def month13_event_def
        instant_event_def event1_def)

lemma utc_host_fixed: "fixed_offset utc_host 0"
  by (simp add: fixed_offset_def utc_host_def)



text \<open>
  The fixed offset is needed as well: in the zone of New York, the event at 10:00 UTC on
  2025-11-01 repeated daily is at 06:00 local time every day, which is 25 hours after the
  first occurrence on the day on which daylight saving time ends.
\<close>

lemma expandRecurrence_daylight_saving:
  "map_option (map_sum id (map (\<lambda>x. propOf x ''start'')))
     (expandRecurrence newyork_host november_event None None (Num 730))
   = Some (Inr [VDate (Num 1761991200000), VDate (Num 1762081200000),
                VDate (Num 1762167600000)])"
  by code_simp

text \<open>
  Whenever the call returns for an event that has a rule with a frequency, the number of
  occurrences is at most the rule's count when a non-zero count is set, and at most
  \<open>maxOccurrences\<close> when no usable count is set; and the call returns when the rule has
  no filter and no range start is given.
\<close>

lemma expandRecurrence_length:
  assumes "eventRule h ev = Inr (Some r)" "freq r = Some f" "f \<noteq> []"
    and "expandRecurrence h ev rs re m = Some (Inr occs)"
  shows "count r = Some (Num n) \<and> n \<noteq> 0 \<longrightarrow> int (length occs) \<le> max 0 n"
    and "(count r = None \<or> count r = Some (Num 0) \<or> count r = Some NaN) \<and> m = Num mx
           \<longrightarrow> int (length occs) \<le> max 0 mx"
proof -
  from assms(4)
  have "expand_loop h (walk_of h ev r f rs re m) (newDate h (propOf ev ''start'')) 0 []
          = Some occs"
    by (auto simp: expandRecurrence_rule [OF assms(1-3)])
  note l = expand_loop_length [OF this]
  from l show "count r = Some (Num n) \<and> n \<noteq> 0 \<longrightarrow> int (length occs) \<le> max 0 n"
    by (auto simp: walk_of_fields)
  from l show "(count r = None \<or> count r = Some (Num 0) \<or> count r = Some NaN) \<and> m = Num mx
           \<longrightarrow> int (length occs) \<le> max 0 mx"
    by (auto simp: walk_of_fields)
qed

lemma expandRecurrence_returns:
  assumes "eventRule h ev = Inr (Some r)" "freq r = Some f" "f \<noteq> []" "no_filters r"
  shows "\<exists>occs. expandRecurrence h ev None re m = Some (Inr occs)"
proof -
  have "\<exists>res. expand_loop h (walk_of h ev r f None re m) (newDate h (propOf ev ''start'')) 0 []
                 = Some res"
    using assms(4)
    by (intro expand_loop_returns) (simp_all add: walk_of_fields no_filters_matchesRule)
  then show ?thesis
    by (auto simp: expandRecurrence_rule [OF assms(1-3)])
qed

text \<open>
  The loop does not end when no candidate matches and neither \<open>UNTIL\<close> nor a range end
  stops it: the counter stays at 0 and the list stays empty, so the safety check never
  fires.
\<close>

lemma expand_loop_never_matching:
  assumes "\<And>d. \<not> matchesRule h d (w_rrule w) (w_startDate w)"
    and "until (w_rrule w) = None" "w_rangeEnd w = None" "num_lt (Num 0) (w_maxCount w)"
  shows "expand_loop h w cur 0 [] = None"
proof (rule ccontr)
  assume "expand_loop h w cur 0 [] \<noteq> None"
  then obtain res where res: "expand_loop h w cur 0 [] = Some res" by blast
  have "(\<forall>d. \<not> matchesRule h d (w_rrule w) (w_startDate w)) \<and>
        until (w_rrule w) = None \<and> w_rangeEnd w = None \<and> num_lt (Num 0) (w_maxCount w) \<and>
        (0::int) = 0 \<and> ([]::event list) = [] \<longrightarrow> False"
  proof (rule expand_loop.raw_induct
      [where P = "\<lambda>h w cur c occs res.
         (\<forall>d. \<not> matchesRule h d (w_rrule w) (w_startDate w)) \<and>
         until (w_rrule w) = None \<and> w_rangeEnd w = None \<and> num_lt (Num 0) (w_maxCount w) \<and>
         c = 0 \<and> occs = [] \<longrightarrow> False", OF _ res])
    fix f :: "host \<Rightarrow> walk \<Rightarrow> num \<Rightarrow> int \<Rightarrow> event list \<Rightarrow> event list option"
      and h w cur c occs res
    assume IH: "\<And>h w cur c occs y. f h w cur c occs = Some y \<Longrightarrow>
       (\<forall>d. \<not> matchesRule h d (w_rrule w) (w_startDate w)) \<and>
       until (w_rrule w) = None \<and> w_rangeEnd w = None \<and> num_lt (Num 0) (w_maxCount w) \<and>
       c = 0 \<and> occs = [] \<longrightarrow> False"
    assume body: "(if \<not> num_lt (Num c) (w_maxCount w) then Some occs
        else if (case until (w_rrule w) of None \<Rightarrow> False | Some u \<Rightarrow> num_gt cur u)
          then Some occs
        else if (case w_rangeEnd w of None \<Rightarrow> False | Some e \<Rightarrow> num_gt cur e)
          then Some occs
        else
          let inRange = (case w_expandedRangeStart w of
                           None \<Rightarrow> True | Some s \<Rightarrow> num_ge cur s);
              emit = (inRange \<and> matchesRule h cur (w_rrule w) (w_startDate w));
              occurrences' = (if emit then occs @ [occurrence h w cur] else occs);
              cnt' = (if emit then c + 1 else c);
              next = getNextOccurrence h cur (w_freq w) (w_interval w) (w_rrule w)
          in if stalled next occurrences' then Some occurrences'
             else f h w next cnt' occurrences') = Some res"
    show "(\<forall>d. \<not> matchesRule h d (w_rrule w) (w_startDate w)) \<and>
         until (w_rrule w) = None \<and> w_rangeEnd w = None \<and> num_lt (Num 0) (w_maxCount w) \<and>
         c = 0 \<and> occs = [] \<longrightarrow> False"
    proof
      assume I: "(\<forall>d. \<not> matchesRule h d (w_rrule w) (w_startDate w)) \<and>
         until (w_rrule w) = None \<and> w_rangeEnd w = None \<and> num_lt (Num 0) (w_maxCount w) \<and>
         c = 0 \<and> occs = []"
      with body have
        "f h w (getNextOccurrence h cur (w_freq w) (w_interval w) (w_rrule w)) 0 [] = Some res"
        by (simp add: Let_def stalled_def)
      from IH [OF this] I show False by simp
    qed
  qed
  with assms show False by simp
qed

lemma month13_never_matches:
  "\<not> matchesRule h d (empty_rule\<lparr>freq := Some ''DAILY'', byMonth := Some [Num 13]\<rparr>) s"
proof (cases d)
  case NaN
  then show ?thesis by (simp add: matchesRule_def empty_rule_def)
next
  case (Num t)
  with MonthFromTime_range [of "LocalTime h t"] show ?thesis
    by (simp add: matchesRule_def empty_rule_def)
qed

text \<open>
  C1. Two calls on event 1 (10:00 on 2025-11-05) with rule texts. Under
  \<open>FREQ=DAILY;BYMONTH=13\<close>, over an unbounded range, the call does not return: no
  candidate matches, the counter stays at 0 and the list stays empty, so the safety check
  never fires. Under \<open>FREQ=DAILY;COUNT=3\<close> with \<open>maxOccurrences = 2\<close> the call returns
  three occurrences: a count that is set replaces the cap.
\<close>

theorem expandRecurrence_unbounded_walk:
  "expandRecurrence utc_host month13_event None None (Num 730) = None
   \<and> map_option (map_sum id length) (expandRecurrence utc_host count3_event None None (Num 2))
       = Some (Inr 3)"
proof
  let ?r = "empty_rule\<lparr>freq := Some ''DAILY'', byMonth := Some [Num 13]\<rparr>"
  have b: "freq ?r = Some ''DAILY''" "''DAILY'' \<noteq> []"
    by (simp_all add: empty_rule_def)
  have "expand_loop utc_host (walk_of utc_host month13_event ?r ''DAILY'' None None (Num 730))
          (newDate utc_host (propOf month13_event ''start'')) 0 [] = None"
    by (rule expand_loop_never_matching)
      (simp_all add: walk_of_fields month13_never_matches, simp_all add: empty_rule_def)
  then show "expandRecurrence utc_host month13_event None None (Num 730) = None"
    by (simp add: expandRecurrence_rule [OF sample_rules(3) b])
next
  let ?r = "empty_rule\<lparr>freq := Some ''DAILY'', count := Some (Num 3)\<rparr>"
  have "expandRecurrence utc_host count3_event None None (Num 2) =
          Some (Inr (map (\<lambda>i. occurrence utc_host
                       (walk_of utc_host count3_event ?r ''DAILY'' None None (Num 2))
                       (Num (1762336800000 + int i * 1 * msPerDay))) [0..<nat 3]))"
    by (rule expandRecurrence_daily_unbounded
          [OF sample_rules(2) sample_starts(2) _ _ _ _ _ _ _ utc_host_fixed])
      (simp_all add: empty_rule_def no_filters_def valid_time_def msPerDay_def)
  then show "map_option (map_sum id length)
               (expandRecurrence utc_host count3_event None None (Num 2)) = Some (Inr 3)"
    by simp
qed

text \<open>
  Nor does \<open>UNTIL\<close> or a range end stop the walk once the candidate is an invalid date:
  every comparison with it is false and the step from it gives an invalid date again.
\<close>

lemma getNextOccurrence_NaN: "getNextOccurrence h NaN f i r = NaN"
  by (simp add: getNextOccurrence_def)

lemma expand_loop_invalid_candidate:
  assumes "\<And>d. \<not> matchesRule h d (w_rrule w) (w_startDate w)"
    and "num_lt (Num 0) (w_maxCount w)"
  shows "expand_loop h w NaN 0 [] = None"
proof (rule ccontr)
  assume "expand_loop h w NaN 0 [] \<noteq> None"
  then obtain res where res: "expand_loop h w NaN 0 [] = Some res" by blast
  have "(\<forall>d. \<not> matchesRule h d (w_rrule w) (w_startDate w)) \<and>
        num_lt (Num 0) (w_maxCount w) \<and> (NaN::num) = NaN \<and>
        (0::int) = 0 \<and> ([]::event list) = [] \<longrightarrow> False"
  proof (rule expand_loop.raw_induct
      [where P = "\<lambda>h w cur c occs res.
         (\<forall>d. \<not> matchesRule h d (w_rrule w) (w_startDate w)) \<and>
         num_lt (Num 0) (w_maxCount w) \<and> cur = NaN \<and> c = 0 \<and> occs = [] \<longrightarrow> False",
       OF _ res])
    fix f :: "host \<Rightarrow> walk \<Rightarrow> num \<Rightarrow> int \<Rightarrow> event list \<Rightarrow> event list option"
      and h w cur c occs res
    assume IH: "\<And>h w cur c occs y. f h w cur c occs = Some y \<Longrightarrow>
       (\<forall>d. \<not> matchesRule h d (w_rrule w) (w_startDate w)) \<and>
       num_lt (Num 0) (w_maxCount w) \<and> cur = NaN \<and> c = 0 \<and> occs = [] \<longrightarrow> False"
    assume body: "(if \<not> num_lt (Num c) (w_maxCount w) then Some occs
        else if (case until (w_rrule w) of None \<Rightarrow> False | Some u \<Rightarrow> num_gt cur u)
          then Some occs
        else if (case w_rangeEnd w of None \<Rightarrow> False | Some e \<Rightarrow> num_gt cur e)
          then Some occs
        else
          let inRange = (case w_expandedRangeStart w of
                           None \<Rightarrow> True | Some s \<Rightarrow> num_ge cur s);
              emit = (inRange \<and> matchesRule h cur (w_rrule w) (w_startDate w));
              occurrences' = (if emit then occs @ [occurrence h w cur] else occs);
              cnt' = (if emit then c + 1 else c);
              next = getNextOccurrence h cur (w_freq w) (w_interval w) (w_rrule w)
          in if stalled next occurrences' then Some occurrences'
             else f h w next cnt' occurrences') = Some res"
    show "(\<forall>d. \<not> matchesRule h d (w_rrule w) (w_startDate w)) \<and>
         num_lt (Num 0) (w_maxCount w) \<and> cur = NaN \<and> c = 0 \<and> occs = [] \<longrightarrow> False"
    proof
      assume I: "(\<forall>d. \<not> matchesRule h d (w_rrule w) (w_startDate w)) \<and>
         num_lt (Num 0) (w_maxCount w) \<and> cur = NaN \<and> c = 0 \<and> occs = []"
      have "\<not> (case until (w_rrule w) of None \<Rightarrow> False | Some u \<Rightarrow> num_gt NaN u)"
        "\<not> (case w_rangeEnd w of None \<Rightarrow> False | Some e \<Rightarrow> num_gt NaN e)"
        by (simp_all add: num_gt_def split: option.splits)
      moreover from I have i: "cur = NaN" "c = 0" "occs = []" "num_lt (Num 0) (w_maxCount w)"
        "\<forall>d. \<not> matchesRule h d (w_rrule w) (w_startDate w)"
        by simp_all
      moreover note body [unfolded i(1,2,3)]
      ultimately have "f h w NaN 0 [] = Some res"
        by (simp add: Let_def stalled_def getNextOccurrence_NaN)
      from IH [OF this] i show False by simp
    qed
  qed
  with assms show False by simp
qed

text \<open>
  So the call on event 1 under the rule
  \<open>FREQ=YEARLY;INTERVAL=300000;BYMONTH=13;UNTIL=20300101T000000Z\<close> does not return
  either: the second candidate, in the year 302025, is an invalid date.
\<close>

lemma expandRecurrence_until_diverges:
  "expandRecurrence utc_host leap_event None None (Num 730) = None"
proof -
  define r where "r = empty_rule\<lparr>freq := Some ''YEARLY'', interval := Some (Num 300000),
                                   byMonth := Some [Num 13], until := Some (Num 1893456000000)\<rparr>"
  define w where "w = walk_of utc_host leap_event r ''YEARLY'' None None (Num 730)"
  have e: "eventRule utc_host leap_event = Inr (Some r)"
    unfolding r_def by code_simp
  have b: "freq r = Some ''YEARLY''" "''YEARLY'' \<noteq> []"
    by (simp_all add: r_def empty_rule_def)
  have s: "newDate utc_host (propOf leap_event ''start'') = Num 1762336800000"
    by (simp add: leap_event_def event1_def propOf_def)
  have m: "\<not> matchesRule utc_host d (w_rrule w) (w_startDate w)" for d
  proof (cases d)
    case NaN
    then show ?thesis by (simp add: w_def walk_of_fields matchesRule_def r_def empty_rule_def)
  next
    case (Num t)
    with MonthFromTime_range [of "LocalTime utc_host t"] show ?thesis
      by (simp add: w_def walk_of_fields matchesRule_def r_def empty_rule_def)
  qed
  have f: "w_maxCount w = Num 730" "until (w_rrule w) = Some (Num 1893456000000)"
    "w_rangeEnd w = None" "w_freq w = ''YEARLY''" "w_interval w = Num 300000"
    by (simp_all add: w_def walk_of_fields r_def empty_rule_def)
  have n: "getNextOccurrence utc_host (Num 1762336800000) ''YEARLY'' (Num 300000) (w_rrule w) = NaN"
    by code_simp
  have "expand_loop utc_host w (Num 1762336800000) 0 [] = expand_loop utc_host w NaN 0 []"
    by (subst expand_loop.simps) (simp add: f m n Let_def stalled_def num_gt_def)
  also have "\<dots> = None"
    by (rule expand_loop_invalid_candidate) (simp_all add: m f)
  finally show ?thesis
    by (simp add: expandRecurrence_rule [OF e b] s w_def)
qed

text \<open>
  An occurrence of an event whose duration is a non-zero number of milliseconds ends that
  long after it starts, when that end is a time a \<open>Date\<close> can hold.
\<close>

lemma occurrence_duration:
  assumes "w_eventDuration w = Num dur" "dur \<noteq> 0" "valid_time (t + dur)"
  shows "propOf (occurrence h w (Num t)) ''start'' = VDate (Num t)
       \<and> propOf (occurrence h w (Num t)) ''end'' = VDate (Num (t + dur))"
  using assms by (simp add: occurrence_start occurrence_end TimeClip_valid)

text \<open>
  C3 at an event whose end equals its start (duration zero), repeated daily twice: both
  occurrences carry \<open>end: null\<close> instead of an end equal to their start.
\<close>

theorem expandRecurrence_zero_duration_end_null:
  "map_option (map_sum id (map (\<lambda>x. (propOf x ''start'', propOf x ''end''))))
     (expandRecurrence utc_host instant_event None None (Num 730))
   = Some (Inr [(VDate (Num 1762336800000), VNull), (VDate (Num 1762423200000), VNull)])"
proof -
  let ?w = "walk_of utc_host instant_event (daily (Num 2) (Num 1)) ''DAILY'' None None (Num 730)"
  have e: "expandRecurrence utc_host instant_event None None (Num 730) =
          Some (Inr (map (\<lambda>i. occurrence utc_host ?w
                       (Num (1762336800000 + int i * 1 * msPerDay))) [0..<nat 2]))"
    by (rule expandRecurrence_daily_unbounded
          [OF sample_rules(4) sample_starts(4) _ _ _ _ _ _ _ utc_host_fixed])
      (simp_all add: daily_def empty_rule_def no_filters_def valid_time_def msPerDay_def)
  have d: "w_eventDuration ?w = Num 0"
    by (simp add: walk_of_fields instant_event_def propOf_def)
  have u: "[0..<nat 2] = [0, 1]"
    by (simp add: upt_rec)
  show ?thesis
    unfolding e u by (simp add: occurrence_start occurrence_end d msPerDay_def)
qed

section \<open>Properties of the month grid\<close>



















section \<open>Properties of the string functions\<close>

lemma split_on_nonempty: "split_on c s \<noteq> []"
  by (induction s) (auto split: list.splits)

lemma split_on_none: "c \<notin> set p \<Longrightarrow> split_on c p = [p]"
  by (induction p) auto

lemma split_on_first: "c \<notin> set p \<Longrightarrow> split_on c (p @ c # s) = p # split_on c s"
  by (induction p) auto

lemma split_on_join:
  "ps \<noteq> [] \<Longrightarrow> \<forall>p\<in>set ps. c \<notin> set p \<Longrightarrow> split_on c (join c ps) = ps"
proof (induction ps rule: join.induct)
  case (1 c)
  then show ?case by simp
next
  case (2 c p)
  then show ?case by (simp add: split_on_none)
next
  case (3 c p q ps)
  then show ?case by (simp add: split_on_first)
qed

lemma join_split_on: "join c (split_on c s) = s"
proof (induction s)
  case Nil
  then show ?case by simp
next
  case (Cons x s)
  show ?case
  proof (cases "x = c")
    case True
    with Cons split_on_nonempty [of c s] show ?thesis
      by (cases "split_on c s") simp_all
  next
    case False
    with Cons split_on_nonempty [of c s] show ?thesis
      by (cases "split_on c s"; cases "tl (split_on c s)") auto
  qed
qed

lemma join_set: "set (join c ps) \<subseteq> insert c (\<Union>p\<in>set ps. set p)"
  by (induction ps rule: join.induct) auto

lemma join_nonempty: "ps \<noteq> [] \<Longrightarrow> \<forall>p\<in>set ps. p \<noteq> [] \<Longrightarrow> join c ps \<noteq> []"
  by (induction ps rule: join.induct) auto

text \<open>Upper-casing changes lower-case letters only.\<close>

lemma upper_char_fixed:
  "c \<notin> set ''abcdefghijklmnopqrstuvwxyz'' \<Longrightarrow> upper_char c = c"
  by (simp add: upper_char_def)

lemma upper_char_separator:
  "upper_char c = CHR '';'' \<longleftrightarrow> c = CHR '';''"
  "upper_char c = CHR ''='' \<longleftrightarrow> c = CHR ''=''"
  by (auto simp: upper_char_def split: if_splits)

lemma toUpperCase_Nil: "toUpperCase s = [] \<longleftrightarrow> s = []"
  by (simp add: toUpperCase_def)

lemma toUpperCase_separator:
  "CHR '';'' \<in> set (toUpperCase s) \<longleftrightarrow> CHR '';'' \<in> set s"
  "CHR ''='' \<in> set (toUpperCase s) \<longleftrightarrow> CHR ''='' \<in> set s"
proof -
  have "c \<in> set (toUpperCase s) \<longleftrightarrow> (\<exists>x\<in>set s. upper_char x = c)" for c
    by (auto simp: toUpperCase_def)
  then show "CHR '';'' \<in> set (toUpperCase s) \<longleftrightarrow> CHR '';'' \<in> set s"
    "CHR ''='' \<in> set (toUpperCase s) \<longleftrightarrow> CHR ''='' \<in> set s"
    by (simp_all add: upper_char_separator)
qed



text \<open>Decimal numerals: their characters, and reading them back.\<close>

lemma digit_cases:
  "k < 10 \<Longrightarrow>
     k = 0 \<or> k = 1 \<or> k = 2 \<or> k = 3 \<or> k = 4 \<or> k = 5 \<or> k = 6 \<or> k = 7 \<or> k = 8 \<or> k = (9::nat)"
  by arith

lemma digit_char_val: "k < 10 \<Longrightarrow> digit_val (digit_char k) = Some k"
  by (drule digit_cases, elim disjE) (simp_all add: digit_char_def digit_val_def)

lemma is_digit_digit_char: "k < 10 \<Longrightarrow> is_digit 10 (digit_char k)"
  by (simp add: is_digit_def digit_char_val)

lemma not_digit:
  "\<not> is_digit 10 CHR '';''" "\<not> is_digit 10 CHR ''=''" "\<not> is_digit 10 CHR '',''"
  "\<not> is_digit 10 CHR ''-''" "\<not> is_digit 10 CHR ''+''" "\<not> is_digit 10 CHR ''x''"
  "\<not> is_digit 10 CHR ''X''" "\<not> is_digit 10 CHR '' ''" "\<not> is_digit 10 (CHR 0x09)"
  "\<not> is_digit 10 (CHR 0x0A)" "\<not> is_digit 10 (CHR 0x0B)" "\<not> is_digit 10 (CHR 0x0C)"
  "\<not> is_digit 10 (CHR 0x0D)"
  by (simp_all add: is_digit_def digit_val_def)

lemma digit_not_space: "is_digit 10 c \<Longrightarrow> \<not> is_space c"
  using not_digit by (auto simp: is_space_def)

lemma digit_plain:
  assumes "is_digit 10 c"
  shows "c \<noteq> CHR '';''" "c \<noteq> CHR ''=''" "c \<noteq> CHR '',''" "c \<noteq> CHR ''-''" "c \<noteq> CHR ''+''"
    "c \<noteq> CHR ''x''" "c \<noteq> CHR ''X''"
  using assms not_digit by blast+

lemma digits_value_snoc:
  "digits_value radix (ds @ [c]) = int radix * digits_value radix ds + int (the (digit_val c))"
  by (simp add: digits_value_def)

lemma show_digits_props:
  "0 \<le> n \<Longrightarrow>
     show_digits n \<noteq> [] \<and> list_all (is_digit 10) (show_digits n) \<and>
     digits_value 10 (show_digits n) = n"
proof (induction n rule: show_digits.induct)
  case (1 n)
  show ?case
  proof (cases "n < 10")
    case True
    with 1(2) have k: "nat n < 10" by simp
    have s: "show_digits n = [digit_char (nat n)]"
      using True by (subst show_digits.simps) simp
    show ?thesis
      using k 1(2)
      by (simp add: s is_digit_digit_char digit_char_val digits_value_def)
  next
    case False
    then have ge: "0 \<le> n div 10" by simp
    have k: "nat (n mod 10) < 10" by simp
    have s: "show_digits n = show_digits (n div 10) @ [digit_char (nat (n mod 10))]"
      using False by (subst show_digits.simps) simp
    from 1(1) [OF False ge] show ?thesis
      using k
      by (simp add: s is_digit_digit_char digit_char_val digits_value_snoc)
  qed
qed

lemma takeWhile_all: "list_all P xs \<Longrightarrow> takeWhile P xs = xs"
  by (induction xs) auto

lemma parse_digits_all:
  "ds \<noteq> [] \<Longrightarrow> list_all (is_digit 10) ds \<Longrightarrow>
     parse_digits 10 neg ds = Num (if neg then - digits_value 10 ds else digits_value 10 ds)"
  by (simp add: parse_digits_def Let_def takeWhile_all)

text \<open>\<open>parseInt\<close>, with and without the radix 10, on a string of decimal digits.\<close>

lemma parseInt_digits:
  assumes "ds \<noteq> []" "list_all (is_digit 10) ds"
  shows "parseInt ds = Num (digits_value 10 ds)" "parseInt10 ds = Num (digits_value 10 ds)"
proof -
  obtain c cs where cs: "ds = c # cs" using assms(1) by (cases ds) auto
  have c: "is_digit 10 c" using assms(2) cs by simp
  note h = digit_not_space [OF c] digit_plain(4,5) [OF c]
  have x: "take 2 ds \<noteq> ''0x''" "take 2 ds \<noteq> ''0X''"
  proof -
    have "\<forall>d\<in>set (take 2 ds). is_digit 10 d"
      using assms(2) by (auto simp: list_all_iff dest: in_set_takeD)
    then show "take 2 ds \<noteq> ''0x''" "take 2 ds \<noteq> ''0X''"
      using not_digit(6,7) by auto
  qed
  have sp: "dropWhile is_space ds = ds" using h(1) cs by simp
  have sg: "strip_sign ds = (False, ds)" using h(2,3) cs by (simp add: strip_sign_def)
  show "parseInt ds = Num (digits_value 10 ds)"
    using x parse_digits_all [OF assms, of False] by (simp add: parseInt_def sp sg)
  show "parseInt10 ds = Num (digits_value 10 ds)"
    using parse_digits_all [OF assms, of False] by (simp add: parseInt10_def sp sg)
qed

text \<open>\<open>parseInt(String(x), 10)\<close> is \<open>x\<close>, for an integer and for \<open>NaN\<close>.\<close>

lemma parseInt10_NaN: "parseInt10 ''NaN'' = NaN"
  by (simp add: parseInt10_def is_space_def strip_sign_def parse_digits_def is_digit_def
        digit_val_def)

lemma parseInt10_num_to_string:
  assumes "safe_num x"
  shows "parseInt10 (num_to_string h x) = x"
proof (cases x)
  case NaN
  then show ?thesis by (simp add: parseInt10_NaN)
next
  case (Num n)
  then have s: "safe_integer n" using assms by (simp add: safe_num_def)
  show ?thesis
  proof (cases "n < 0")
    case True
    then have p: "0 \<le> - n" by simp
    note d = show_digits_props [OF p]
    have "\<not> is_space CHR ''-''" by (simp add: is_space_def)
    then show ?thesis
      using True Num s d parse_digits_all [of "show_digits (- n)" True]
      by (simp add: parseInt10_def strip_sign_def)
  next
    case False
    then have p: "0 \<le> n" by simp
    note d = show_digits_props [OF p]
    from parseInt_digits(2) [of "show_digits n"] d False Num s show ?thesis
      by simp
  qed
qed

lemma show_digits_chars:
  assumes "0 \<le> n"
  shows "CHR '';'' \<notin> set (show_digits n)" "CHR ''='' \<notin> set (show_digits n)"
    "CHR '','' \<notin> set (show_digits n)"
  using show_digits_props [OF assms] not_digit(1,2,3) by (auto simp: list_all_iff)

lemma num_to_string_chars:
  assumes "safe_num x"
  shows "num_to_string h x \<noteq> []" "CHR '';'' \<notin> set (num_to_string h x)"
    "CHR ''='' \<notin> set (num_to_string h x)" "CHR '','' \<notin> set (num_to_string h x)"
proof -
  have "num_to_string h x \<noteq> [] \<and> CHR '';'' \<notin> set (num_to_string h x) \<and>
    CHR ''='' \<notin> set (num_to_string h x) \<and> CHR '','' \<notin> set (num_to_string h x)"
  proof (cases x)
    case NaN
    then show ?thesis by simp
  next
    case (Num n)
    then have s: "safe_integer n" using assms by (simp add: safe_num_def)
    show ?thesis
    proof (cases "n < 0")
      case True
      then have p: "0 \<le> - n" by simp
      from show_digits_chars [OF p] show_digits_props [OF p] True Num s show ?thesis by simp
    next
      case False
      then have p: "0 \<le> n" by simp
      from show_digits_chars [OF p] show_digits_props [OF p] False Num s show ?thesis by simp
    qed
  qed
  then show "num_to_string h x \<noteq> []" "CHR '';'' \<notin> set (num_to_string h x)"
    "CHR ''='' \<notin> set (num_to_string h x)" "CHR '','' \<notin> set (num_to_string h x)"
    by simp_all
qed


text \<open>The numerals of the six fields of a date: four digits for a year from 1000 to 9999, two for the rest.\<close>

lemma show_digits_one: "0 \<le> n \<Longrightarrow> n < 10 \<Longrightarrow> show_digits n = [digit_char (nat n)]"
  by (subst show_digits.simps) simp

lemma show_digits_step:
  "10 \<le> n \<Longrightarrow> show_digits n = show_digits (n div 10) @ [digit_char (nat (n mod 10))]"
  by (subst show_digits.simps) simp

lemma year_numeral:
  assumes "1000 \<le> y" "y \<le> 9999"
  shows "\<exists>a b c d. show_digits y = [a, b, c, d] \<and> list_all (is_digit 10) [a, b, c, d]"
proof -
  have 1: "10 \<le> y" "10 \<le> y div 10" "10 \<le> y div 10 div 10"
    "0 \<le> y div 10 div 10 div 10" "y div 10 div 10 div 10 < 10"
    using assms by simp_all
  have "show_digits y = [digit_char (nat (y div 10 div 10 div 10)),
          digit_char (nat (y div 10 div 10 mod 10)), digit_char (nat (y div 10 mod 10)),
          digit_char (nat (y mod 10))]"
    by (simp add: show_digits_step [OF 1(1)] show_digits_step [OF 1(2)]
          show_digits_step [OF 1(3)] show_digits_one [OF 1(4,5)])
  moreover have "list_all (is_digit 10) (show_digits y)"
    using show_digits_props [of y] assms by simp
  ultimately show ?thesis by metis
qed

lemma two_digit_numeral:
  assumes "0 \<le> n" "n \<le> 99"
  shows "\<exists>a b. padStart2 (show_digits n) = [a, b] \<and> list_all (is_digit 10) [a, b] \<and>
           digits_value 10 [a, b] = n"
proof (cases "n < 10")
  case True
  have s: "show_digits n = [digit_char (nat n)]"
    by (rule show_digits_one [OF assms(1) True])
  have k: "nat n < 10" using True assms by simp
  have "padStart2 (show_digits n) = [CHR ''0'', digit_char (nat n)]"
    by (simp add: s padStart2_def)
  moreover have "digit_val CHR ''0'' = Some 0" by (simp add: digit_val_def)
  then have "digits_value 10 [CHR ''0'', digit_char (nat n)] = n"
    using assms(1) by (simp add: digits_value_def digit_char_val [OF k])
  moreover have "list_all (is_digit 10) [CHR ''0'', digit_char (nat n)]"
    using is_digit_digit_char [OF k] by (simp add: is_digit_def digit_val_def)
  ultimately show ?thesis by metis
next
  case False
  then have 1: "10 \<le> n" "0 \<le> n div 10" "n div 10 < 10" using assms by simp_all
  have s: "show_digits n = [digit_char (nat (n div 10)), digit_char (nat (n mod 10))]"
    by (simp add: show_digits_step [OF 1(1)] show_digits_one [OF 1(2,3)])
  have "padStart2 (show_digits n) = show_digits n"
    by (simp add: s padStart2_def)
  moreover have "list_all (is_digit 10) (show_digits n)"
    "digits_value 10 (show_digits n) = n"
    using show_digits_props [of n] assms by simp_all
  ultimately show ?thesis using s by metis
qed

text \<open>The time fields of a time value, and the time value assembled from them.\<close>

lemma div_mod_parts:
  fixes b q r :: int
  assumes "0 \<le> r" "r < b"
  shows "(b * q + r) div b = q" "(b * q + r) mod b = r"
  using assms by (simp_all add: div_pos_pos_trivial mod_pos_pos_trivial)

lemma HourFromTime_range: "0 \<le> HourFromTime t \<and> HourFromTime t \<le> 23"
  by (simp add: HourFromTime_def)

lemma MinFromTime_range: "0 \<le> MinFromTime t \<and> MinFromTime t \<le> 59"
  by (simp add: MinFromTime_def)

lemma SecFromTime_range: "0 \<le> SecFromTime t \<and> SecFromTime t \<le> 59"
  by (simp add: SecFromTime_def)

lemma same_day_fields:
  assumes "Day a = Day b"
  shows "YearFromTime a = YearFromTime b" "MonthFromTime a = MonthFromTime b"
    "DateFromTime a = DateFromTime b"
proof -
  show y: "YearFromTime a = YearFromTime b" by (simp add: YearFromTime_def assms)
  have l: "InLeapYear a = InLeapYear b" by (simp add: InLeapYear_def y)
  have d: "DayWithinYear a = DayWithinYear b" by (simp add: DayWithinYear_def y assms)
  show m: "MonthFromTime a = MonthFromTime b" by (simp add: MonthFromTime_def l d)
  show "DateFromTime a = DateFromTime b" by (simp add: DateFromTime_def l d m)
qed

lemma assembled_time_fields:
  assumes "0 \<le> hh" "hh \<le> 23" "0 \<le> mi" "mi \<le> 59" "0 \<le> ss" "ss \<le> 59"
  shows "Day (MakeDate dy (MakeTime hh mi ss 0)) = dy"
    and "HourFromTime (MakeDate dy (MakeTime hh mi ss 0)) = hh"
    and "MinFromTime (MakeDate dy (MakeTime hh mi ss 0)) = mi"
    and "SecFromTime (MakeDate dy (MakeTime hh mi ss 0)) = ss"
proof -
  let ?t = "MakeDate dy (MakeTime hh mi ss 0)"
  have d: "?t = 86400000 * dy + (hh * 3600000 + mi * 60000 + ss * 1000)"
    by (simp add: MakeDate_def MakeTime_def msPerDay_def msPerHour_def msPerMinute_def
          msPerSecond_def)
  have hr: "?t = 3600000 * (24 * dy + hh) + (mi * 60000 + ss * 1000)"
    by (simp add: d)
  have mn: "?t = 60000 * (60 * (24 * dy + hh) + mi) + ss * 1000"
    by (simp add: d)
  have sc: "?t = 1000 * (60 * (60 * (24 * dy + hh) + mi) + ss) + 0"
    by (simp add: d)
  have b1: "0 \<le> hh * 3600000 + mi * 60000 + ss * 1000"
    "hh * 3600000 + mi * 60000 + ss * 1000 < 86400000"
    using assms by simp_all
  have b2: "0 \<le> mi * 60000 + ss * 1000" "mi * 60000 + ss * 1000 < 3600000"
    using assms by simp_all
  have b3: "0 \<le> ss * 1000" "ss * 1000 < 60000"
    using assms by simp_all
  show "Day ?t = dy"
    unfolding Day_def msPerDay_def d by (rule div_mod_parts(1) [OF b1])
  have "?t div 3600000 = 24 * dy + hh"
    unfolding hr by (rule div_mod_parts(1) [OF b2])
  then show "HourFromTime ?t = hh"
    unfolding HourFromTime_def msPerHour_def
    using div_mod_parts(2) [of hh 24 dy] assms by simp
  have "?t div 60000 = 60 * (24 * dy + hh) + mi"
    unfolding mn by (rule div_mod_parts(1) [OF b3])
  then show "MinFromTime ?t = mi"
    unfolding MinFromTime_def msPerMinute_def
    using div_mod_parts(2) [of mi 60 "24 * dy + hh"] assms by simp
  have "?t div 1000 = 60 * (60 * (24 * dy + hh) + mi) + ss"
    unfolding sc by (rule div_mod_parts(1)) simp_all
  then show "SecFromTime ?t = ss"
    unfolding SecFromTime_def msPerSecond_def
    using div_mod_parts(2) [of ss 60 "60 * (24 * dy + hh) + mi"] assms by simp
qed

text \<open>
  The text that \<open>formatRRuleDate\<close> writes for a date in the years 1000 to 9999 is read
  back by \<open>parseRRuleDate\<close> as a date with the same six fields, and so is written again
  as the same text.
\<close>

lemma four_digit_year_day:
  assumes "1000 \<le> YearFromTime t" "YearFromTime t \<le> 9999"
  shows "- 3000000 \<le> Day t" "Day t \<le> 3000000"
proof -
  define y where "y = YearFromDay (Day t)"
  have y: "1000 \<le> y" "y \<le> 9999" using assms by (simp_all add: y_def YearFromTime_def)
  have s: "DayFromYear y \<le> Day t" "Day t < DayFromYear (y + 1)"
    using YearFromDay_spec [of "Day t"] by (simp_all add: y_def)
  from DayFromYear_bounds(1) [of y] y(1) s(1) show "- 3000000 \<le> Day t" by simp
  from DayFromYear_bounds(2) [of "y + 1"] y(2) s(2) show "Day t \<le> 3000000" by simp
qed

lemma formatRRuleDate_parse_format:
  assumes "1000 \<le> YearFromTime t" "YearFromTime t \<le> 9999"
  shows "formatRRuleDate h (parseRRuleDate h (formatRRuleDate h (Num t)))
           = formatRRuleDate h (Num t)"
proof -
  define Y where "Y = YearFromTime t"
  define M where "M = MonthFromTime t"
  define D where "D = DateFromTime t"
  define hh where "hh = HourFromTime t"
  define mi where "mi = MinFromTime t"
  define ss where "ss = SecFromTime t"
  have rng: "0 \<le> M + 1" "M + 1 \<le> 99" "0 \<le> D" "D \<le> 99" "0 \<le> hh" "hh \<le> 99"
    "0 \<le> mi" "mi \<le> 99" "0 \<le> ss" "ss \<le> 99"
    using MonthFromTime_range [of t] DateFromTime_range [of t] HourFromTime_range [of t]
      MinFromTime_range [of t] SecFromTime_range [of t]
    by (simp_all add: M_def D_def hh_def mi_def ss_def)
  have tr: "0 \<le> hh" "hh \<le> 23" "0 \<le> mi" "mi \<le> 59" "0 \<le> ss" "ss \<le> 59"
    using HourFromTime_range [of t] MinFromTime_range [of t] SecFromTime_range [of t]
    by (simp_all add: hh_def mi_def ss_def)
  from year_numeral [OF assms] obtain y3 y2 y1 y0 where
    y: "show_digits Y = [y3, y2, y1, y0]" "list_all (is_digit 10) [y3, y2, y1, y0]"
    unfolding Y_def by blast
  have yv: "digits_value 10 [y3, y2, y1, y0] = Y"
    using show_digits_props [of Y] assms y(1) by (simp add: Y_def)
  from two_digit_numeral [OF rng(1,2)] obtain m1 m0 where
    m: "padStart2 (show_digits (M + 1)) = [m1, m0]" "list_all (is_digit 10) [m1, m0]"
      "digits_value 10 [m1, m0] = M + 1" by blast
  from two_digit_numeral [OF rng(3,4)] obtain d1 d0 where
    d: "padStart2 (show_digits D) = [d1, d0]" "list_all (is_digit 10) [d1, d0]"
      "digits_value 10 [d1, d0] = D" by blast
  from two_digit_numeral [OF rng(5,6)] obtain h1 h0 where
    hr: "padStart2 (show_digits hh) = [h1, h0]" "list_all (is_digit 10) [h1, h0]"
      "digits_value 10 [h1, h0] = hh" by blast
  from two_digit_numeral [OF rng(7,8)] obtain i1 i0 where
    mn: "padStart2 (show_digits mi) = [i1, i0]" "list_all (is_digit 10) [i1, i0]"
      "digits_value 10 [i1, i0] = mi" by blast
  from two_digit_numeral [OF rng(9,10)] obtain s1 s0 where
    sc: "padStart2 (show_digits ss) = [s1, s0]" "list_all (is_digit 10) [s1, s0]"
      "digits_value 10 [s1, s0] = ss" by blast
  have neg: "\<not> Y < 0" "\<not> M + 1 < 0" "\<not> D < 0" "\<not> hh < 0" "\<not> mi < 0" "\<not> ss < 0"
    "safe_integer Y" "safe_integer (M + 1)" "safe_integer D" "safe_integer hh" "safe_integer mi"
    "safe_integer ss"
    using assms rng by (simp_all add: Y_def safe_integer_def)
  define S where "S = [y3, y2, y1, y0, m1, m0, d1, d0, CHR ''T'', h1, h0, i1, i0, s1, s0, CHR ''Z'']"
  have written: "formatRRuleDate h (Num t) = S"
    using neg
    by (simp add: formatRRuleDate_def Let_def Y_def [symmetric] M_def [symmetric]
          D_def [symmetric] hh_def [symmetric] mi_def [symmetric] ss_def [symmetric]
          y(1) m(1) d(1) hr(1) mn(1) sc(1) S_def)
  have sub: "substring S 0 4 = [y3, y2, y1, y0]" "substring S 4 6 = [m1, m0]"
    "substring S 6 8 = [d1, d0]" "substring S 9 11 = [h1, h0]" "substring S 11 13 = [i1, i0]"
    "substring S 13 15 = [s1, s0]"
    by (simp_all add: substring_def S_def)
  have shape: "length S \<noteq> 8" "CHR ''T'' \<in> set S" "endsWith S CHR ''Z''"
    by (simp_all add: S_def endsWith_def)
  have ints: "parseInt [y3, y2, y1, y0] = Num Y" "parseInt [m1, m0] = Num (M + 1)"
    "parseInt [d1, d0] = Num D" "parseInt [h1, h0] = Num hh" "parseInt [i1, i0] = Num mi"
    "parseInt [s1, s0] = Num ss"
    using parseInt_digits(1) [OF _ y(2)] parseInt_digits(1) [OF _ m(2)]
      parseInt_digits(1) [OF _ d(2)] parseInt_digits(1) [OF _ hr(2)]
      parseInt_digits(1) [OF _ mn(2)] parseInt_digits(1) [OF _ sc(2)]
      yv m(3) d(3) hr(3) mn(3) sc(3)
    by simp_all
  have fy: "fullYear Y = Y" using assms by (simp add: fullYear_def Y_def)
  define t' where "t' = MakeDate (Day t) (MakeTime hh mi ss 0)"
  have "\<bar>t'\<bar> \<le> 8640000000000000"
    using four_digit_year_day [OF assms] tr
    by (simp add: t'_def MakeDate_def MakeTime_def msPerDay_def msPerHour_def msPerMinute_def
          msPerSecond_def)
  then have clipped: "TimeClip t' = Num t'"
    by (simp add: TimeClip_def)
  have "MakeDay Y M D = Day t"
    by (simp add: Y_def M_def D_def MakeDay_fields)
  then have parsed: "parseRRuleDate h S = Num t'"
    using shape clipped by (simp add: parseRRuleDate_def Let_def sub ints fy t'_def)
  note f = assembled_time_fields [OF tr, of "Day t", folded t'_def]
  note g = same_day_fields [OF f(1)]
  have "formatRRuleDate h (Num t') = S"
    using neg
    by (simp add: formatRRuleDate_def Let_def g f(2,3,4) Y_def [symmetric] M_def [symmetric]
          D_def [symmetric] hh_def [symmetric] mi_def [symmetric] ss_def [symmetric]
          y(1) m(1) d(1) hr(1) mn(1) sc(1) S_def)
  then show ?thesis by (simp add: written parsed)
qed

lemma formatRRuleDate_parse_format_NaN:
  "formatRRuleDate h (parseRRuleDate h (formatRRuleDate h NaN)) = formatRRuleDate h NaN"
proof -
  have f: "formatRRuleDate h NaN = ''NaNNaNNaNTNaNNaNNaNZ''"
    by (simp add: formatRRuleDate_def padStart2_def)
  have "parseInt ''NaNN'' = NaN"
    by (simp add: parseInt_def is_space_def strip_sign_def parse_digits_def is_digit_def
          digit_val_def)
  then have "parseRRuleDate h ''NaNNaNNaNTNaNNaNNaNZ'' = NaN"
    by (simp add: parseRRuleDate_def Let_def substring_def endsWith_def)
  then show ?thesis by (simp add: f)
qed

text \<open>The text of such a date is not empty and holds no separator.\<close>

lemma padStart2_chars:
  assumes "safe_num x"
  shows "CHR '';'' \<notin> set (padStart2 (num_to_string h x))"
    "CHR ''='' \<notin> set (padStart2 (num_to_string h x))"
  using num_to_string_chars(2,3) [OF assms, of h] by (auto simp: padStart2_def)

lemma date_fields_safe:
  assumes "until_ok u"
  shows "safe_num (getUTCFullYear u)" "safe_num (num_add (getUTCMonth u) (Num 1))"
    "safe_num (getUTCDate u)" "safe_num (getUTCHours u)" "safe_num (getUTCMinutes u)"
    "safe_num (getUTCSeconds u)"
proof -
  have "safe_num (getUTCFullYear u) \<and> safe_num (num_add (getUTCMonth u) (Num 1)) \<and>
    safe_num (getUTCDate u) \<and> safe_num (getUTCHours u) \<and> safe_num (getUTCMinutes u) \<and>
    safe_num (getUTCSeconds u)"
  proof (cases u)
    case NaN
    then show ?thesis by (simp add: safe_num_def)
  next
    case (Num t)
    with assms MonthFromTime_range [of t] DateFromTime_range [of t] HourFromTime_range [of t]
      MinFromTime_range [of t] SecFromTime_range [of t]
    show ?thesis by (simp add: safe_num_def safe_integer_def until_ok_def)
  qed
  then show "safe_num (getUTCFullYear u)" "safe_num (num_add (getUTCMonth u) (Num 1))"
    "safe_num (getUTCDate u)" "safe_num (getUTCHours u)" "safe_num (getUTCMinutes u)"
    "safe_num (getUTCSeconds u)"
    by simp_all
qed

lemma formatRRuleDate_chars:
  assumes "until_ok u"
  shows "formatRRuleDate h u \<noteq> []" "CHR '';'' \<notin> set (formatRRuleDate h u)"
    "CHR ''='' \<notin> set (formatRRuleDate h u)"
  using date_fields_safe [OF assms]
  by (simp_all add: formatRRuleDate_def Let_def padStart2_chars num_to_string_chars)

section \<open>Properties of the rule texts\<close>

text \<open>\<open>formatRRule\<close> joins the parts of the fields, in the order of \<open>rule_parts\<close>.\<close>

lemma formatRRule_parts:
  "formatRRule h r =
     (if rule_parts h r = [] then [] else ''RRULE:'' @ join CHR '';'' (rule_parts h r))"
  by (simp add: formatRRule_def rule_parts_def freq_part_def count_part_def until_part_def
        interval_part_def byDay_part_def byMonthDay_part_def byMonth_part_def wkst_part_def
        Let_def)

text \<open>The recognised keys are in upper case already and differ from one another.\<close>

lemma toUpperCase_keys:
  "toUpperCase ''FREQ'' = ''FREQ''" "toUpperCase ''COUNT'' = ''COUNT''"
  "toUpperCase ''UNTIL'' = ''UNTIL''" "toUpperCase ''INTERVAL'' = ''INTERVAL''"
  "toUpperCase ''BYDAY'' = ''BYDAY''" "toUpperCase ''BYMONTHDAY'' = ''BYMONTHDAY''"
  "toUpperCase ''BYMONTH'' = ''BYMONTH''" "toUpperCase ''WKST'' = ''WKST''"
  "toUpperCase ''RRULE:'' = ''RRULE:''"
  by (simp_all add: toUpperCase_def upper_char_def)

lemma split_key_value:
  "CHR ''='' \<notin> set key \<Longrightarrow> CHR ''='' \<notin> set v \<Longrightarrow> split_on CHR ''='' (key @ CHR ''='' # v) = [key, v]"
  by (simp add: split_on_first split_on_none)

text \<open>What one part with a recognised key and a value does to the rule being built.\<close>

lemma parse_part_known:
  assumes "v \<noteq> []" "CHR ''='' \<notin> set v"
  shows "parse_part h e (''FREQ='' @ v) = e\<lparr>freq := Some (toUpperCase v)\<rparr>"
    and "parse_part h e (''COUNT='' @ v) = e\<lparr>count := Some (parseInt10 v)\<rparr>"
    and "parse_part h e (''UNTIL='' @ v) = e\<lparr>until := Some (parseRRuleDate h v)\<rparr>"
    and "parse_part h e (''INTERVAL='' @ v) = e\<lparr>interval := Some (parseInt10 v)\<rparr>"
    and "parse_part h e (''BYDAY='' @ v) = e\<lparr>byDay := Some (split_on CHR '','' v)\<rparr>"
    and "parse_part h e (''BYMONTHDAY='' @ v)
           = e\<lparr>byMonthDay := Some (map parseInt10 (split_on CHR '','' v))\<rparr>"
    and "parse_part h e (''BYMONTH='' @ v)
           = e\<lparr>byMonth := Some (map parseInt10 (split_on CHR '','' v))\<rparr>"
    and "parse_part h e (''WKST='' @ v) = e\<lparr>wkst := Some (toUpperCase v)\<rparr>"
proof -
  have s: "split_on CHR ''='' (''FREQ'' @ CHR ''='' # v) = [''FREQ'', v]"
    "split_on CHR ''='' (''COUNT'' @ CHR ''='' # v) = [''COUNT'', v]"
    "split_on CHR ''='' (''UNTIL'' @ CHR ''='' # v) = [''UNTIL'', v]"
    "split_on CHR ''='' (''INTERVAL'' @ CHR ''='' # v) = [''INTERVAL'', v]"
    "split_on CHR ''='' (''BYDAY'' @ CHR ''='' # v) = [''BYDAY'', v]"
    "split_on CHR ''='' (''BYMONTHDAY'' @ CHR ''='' # v) = [''BYMONTHDAY'', v]"
    "split_on CHR ''='' (''BYMONTH'' @ CHR ''='' # v) = [''BYMONTH'', v]"
    "split_on CHR ''='' (''WKST'' @ CHR ''='' # v) = [''WKST'', v]"
    by (rule split_key_value, simp, rule assms(2))+
  show "parse_part h e (''FREQ='' @ v) = e\<lparr>freq := Some (toUpperCase v)\<rparr>"
    using s(1) assms(1) by (simp add: parse_part_def toUpperCase_keys del: split_on.simps)
  show "parse_part h e (''COUNT='' @ v) = e\<lparr>count := Some (parseInt10 v)\<rparr>"
    using s(2) assms(1) by (simp add: parse_part_def toUpperCase_keys del: split_on.simps)
  show "parse_part h e (''UNTIL='' @ v) = e\<lparr>until := Some (parseRRuleDate h v)\<rparr>"
    using s(3) assms(1) by (simp add: parse_part_def toUpperCase_keys del: split_on.simps)
  show "parse_part h e (''INTERVAL='' @ v) = e\<lparr>interval := Some (parseInt10 v)\<rparr>"
    using s(4) assms(1) by (simp add: parse_part_def toUpperCase_keys del: split_on.simps)
  show "parse_part h e (''BYDAY='' @ v) = e\<lparr>byDay := Some (split_on CHR '','' v)\<rparr>"
    using s(5) assms(1) by (simp add: parse_part_def toUpperCase_keys del: split_on.simps)
  show "parse_part h e (''BYMONTHDAY='' @ v)
          = e\<lparr>byMonthDay := Some (map parseInt10 (split_on CHR '','' v))\<rparr>"
    using s(6) assms(1) by (simp add: parse_part_def toUpperCase_keys del: split_on.simps)
  show "parse_part h e (''BYMONTH='' @ v)
          = e\<lparr>byMonth := Some (map parseInt10 (split_on CHR '','' v))\<rparr>"
    using s(7) assms(1) by (simp add: parse_part_def toUpperCase_keys del: split_on.simps)
  show "parse_part h e (''WKST='' @ v) = e\<lparr>wkst := Some (toUpperCase v)\<rparr>"
    using s(8) assms(1) by (simp add: parse_part_def toUpperCase_keys del: split_on.simps)
qed


text \<open>
  Reading the part of one field into a rule \<open>e\<close> sets that field only, to a value whose
  part is again the part that was read, provided the field was absent from \<open>e\<close>.
\<close>

lemma freq_step:
  assumes "case x of None \<Rightarrow> True | Some f \<Rightarrow> text_ok f"
  shows "\<exists>v. foldl (parse_part h) e (freq_part x) = e\<lparr>freq := v\<rparr> \<and>
             (freq e = None \<longrightarrow> freq_part v = freq_part x)"
proof (cases "freq_part x = []")
  case True
  then show ?thesis
    by (intro exI [where x = "freq e"]) (simp add: freq_part_def)
next
  case False
  then obtain f where f: "x = Some f" "f \<noteq> []"
    by (auto simp: freq_part_def split: option.splits if_splits)
  have v: "toUpperCase f \<noteq> []" "CHR ''='' \<notin> set (toUpperCase f)"
    using f assms by (simp_all add: toUpperCase_Nil toUpperCase_separator text_ok_def)
  have "foldl (parse_part h) e (freq_part x) = parse_part h e (''FREQ='' @ toUpperCase f)"
    using f by (simp add: freq_part_def)
  then have "foldl (parse_part h) e (freq_part x)
               = e\<lparr>freq := Some (toUpperCase (toUpperCase f))\<rparr>"
    by (simp only: parse_part_known(1) [OF v])
  moreover have "freq_part (Some (toUpperCase (toUpperCase f))) = freq_part x"
    using f by (simp add: freq_part_def toUpperCase_idem toUpperCase_Nil)
  ultimately show ?thesis
    by (intro exI [where x = "Some (toUpperCase (toUpperCase f))"]) simp
qed

lemma count_step:
  assumes "case x of None \<Rightarrow> True | Some c \<Rightarrow> safe_num c"
  shows "\<exists>v. foldl (parse_part h) e (count_part h x) = e\<lparr>count := v\<rparr> \<and>
       (count e = None \<longrightarrow> count_part h v = count_part h x)"
proof (cases "count_part h x = []")
  case True
  then show ?thesis
    by (intro exI [where x = "count e"]) (simp add: count_part_def)
next
  case False
  then obtain c where c: "x = Some c" "truthy (VNum c)"
    by (auto simp: count_part_def split: option.splits if_splits)
  have s: "safe_num c" using assms c(1) by simp
  have "foldl (parse_part h) e (count_part h x) = parse_part h e (''COUNT='' @ num_to_string h c)"
    using c by (simp add: count_part_def)
  then have "foldl (parse_part h) e (count_part h x) = e\<lparr>count := Some c\<rparr>"
    by (simp only: parse_part_known(2) [OF num_to_string_chars(1,3) [OF s]]
          parseInt10_num_to_string [OF s])
  then show ?thesis using c(1) by (intro exI [where x = "Some c"]) simp
qed

lemma until_step:
  assumes "case x of None \<Rightarrow> True | Some u \<Rightarrow> until_ok u"
  shows "\<exists>v. foldl (parse_part h) e (until_part h x) = e\<lparr>until := v\<rparr> \<and>
             (until e = None \<longrightarrow> until_part h v = until_part h x)"
proof (cases x)
  case None
  then show ?thesis
    by (intro exI [where x = "until e"]) (simp add: until_part_def)
next
  case (Some u)
  have ok: "until_ok u" using assms Some by simp
  have "formatRRuleDate h (parseRRuleDate h (formatRRuleDate h u)) = formatRRuleDate h u"
  proof (cases u)
    case NaN
    then show ?thesis by (simp add: formatRRuleDate_parse_format_NaN)
  next
    case (Num t)
    then show ?thesis
      using ok by (simp add: until_ok_def formatRRuleDate_parse_format)
  qed
  then have "until_part h (Some (parseRRuleDate h (formatRRuleDate h u))) = until_part h x"
    using Some by (simp add: until_part_def)
  moreover have "foldl (parse_part h) e (until_part h x)
                   = parse_part h e (''UNTIL='' @ formatRRuleDate h u)"
    using Some by (simp add: until_part_def)
  then have "foldl (parse_part h) e (until_part h x)
               = e\<lparr>until := Some (parseRRuleDate h (formatRRuleDate h u))\<rparr>"
    by (simp only: parse_part_known(3) [OF formatRRuleDate_chars(1,3) [OF ok]])
  ultimately show ?thesis
    by (intro exI [where x = "Some (parseRRuleDate h (formatRRuleDate h u))"]) simp
qed

lemma interval_step:
  assumes "case x of None \<Rightarrow> True | Some i \<Rightarrow> safe_num i"
  shows "\<exists>v. foldl (parse_part h) e (interval_part h x) = e\<lparr>interval := v\<rparr> \<and>
       (interval e = None \<longrightarrow> interval_part h v = interval_part h x)"
proof (cases "interval_part h x = []")
  case True
  then show ?thesis
    by (intro exI [where x = "interval e"]) (simp add: interval_part_def)
next
  case False
  then obtain i where i: "x = Some i" "truthy (VNum i) \<and> num_gt i (Num 1)"
    by (auto simp: interval_part_def split: option.splits if_splits)
  have s: "safe_num i" using assms i(1) by simp
  have "foldl (parse_part h) e (interval_part h x)
          = parse_part h e (''INTERVAL='' @ num_to_string h i)"
    using i by (simp add: interval_part_def)
  then have "foldl (parse_part h) e (interval_part h x) = e\<lparr>interval := Some i\<rparr>"
    by (simp only: parse_part_known(4) [OF num_to_string_chars(1,3) [OF s]]
          parseInt10_num_to_string [OF s])
  then show ?thesis using i(1) by (intro exI [where x = "Some i"]) simp
qed

lemma byDay_step:
  assumes "case x of None \<Rightarrow> True
           | Some ds \<Rightarrow> ds = [] \<or> (join CHR '','' ds \<noteq> [] \<and> list_all text_ok ds)"
  shows "\<exists>v. foldl (parse_part h) e (byDay_part x) = e\<lparr>byDay := v\<rparr> \<and>
             (byDay e = None \<longrightarrow> byDay_part v = byDay_part x)"
proof (cases "byDay_part x = []")
  case True
  then show ?thesis
    by (intro exI [where x = "byDay e"]) (simp add: byDay_part_def)
next
  case False
  then obtain ds where ds: "x = Some ds" "ds \<noteq> []"
    by (auto simp: byDay_part_def split: option.splits if_splits)
  have ok: "join CHR '','' ds \<noteq> []" "\<forall>d\<in>set ds. CHR ''='' \<notin> set d"
    using assms ds by (auto simp: list_all_iff text_ok_def)
  have v: "CHR ''='' \<notin> set (join CHR '','' ds)"
    using join_set [of "CHR '',''" ds] ok(2) by auto
  have "foldl (parse_part h) e (byDay_part x) = parse_part h e (''BYDAY='' @ join CHR '','' ds)"
    using ds by (simp add: byDay_part_def)
  then have "foldl (parse_part h) e (byDay_part x)
               = e\<lparr>byDay := Some (split_on CHR '','' (join CHR '','' ds))\<rparr>"
    by (simp only: parse_part_known(5) [OF ok(1) v])
  moreover have "byDay_part (Some (split_on CHR '','' (join CHR '','' ds))) = byDay_part x"
    using ds by (simp add: byDay_part_def split_on_nonempty join_split_on)
  ultimately show ?thesis
    by (intro exI [where x = "Some (split_on CHR '','' (join CHR '','' ds))"]) simp
qed

text \<open>A list of numbers, joined by commas and split again, is read back number by number.\<close>

lemma numbers_read_back:
  assumes "ns \<noteq> []" "list_all safe_num ns"
  shows "join CHR '','' (map (num_to_string h) ns) \<noteq> []"
    and "CHR ''='' \<notin> set (join CHR '','' (map (num_to_string h) ns))"
    and "CHR '';'' \<notin> set (join CHR '','' (map (num_to_string h) ns))"
    and "map parseInt10 (split_on CHR '','' (join CHR '','' (map (num_to_string h) ns))) = ns"
proof -
  show "join CHR '','' (map (num_to_string h) ns) \<noteq> []"
    using assms by (intro join_nonempty) (simp_all add: num_to_string_chars(1) list_all_iff)
  show "CHR ''='' \<notin> set (join CHR '','' (map (num_to_string h) ns))"
    using join_set [of "CHR '',''" "map (num_to_string h) ns"] num_to_string_chars(3) assms(2)
    by (auto simp: list_all_iff)
  show "CHR '';'' \<notin> set (join CHR '','' (map (num_to_string h) ns))"
    using join_set [of "CHR '',''" "map (num_to_string h) ns"] num_to_string_chars(2) assms(2)
    by (auto simp: list_all_iff)
  have "split_on CHR '','' (join CHR '','' (map (num_to_string h) ns)) = map (num_to_string h) ns"
    using assms by (intro split_on_join) (simp_all add: num_to_string_chars(4) list_all_iff)
  then show "map parseInt10 (split_on CHR '','' (join CHR '','' (map (num_to_string h) ns))) = ns"
    using assms(2) by (simp add: parseInt10_num_to_string comp_def list_all_iff map_idI)
qed

lemma byMonthDay_step:
  assumes "case x of None \<Rightarrow> True | Some ns \<Rightarrow> list_all safe_num ns"
  shows "\<exists>v. foldl (parse_part h) e (byMonthDay_part h x) = e\<lparr>byMonthDay := v\<rparr> \<and>
       (byMonthDay e = None \<longrightarrow> byMonthDay_part h v = byMonthDay_part h x)"
proof (cases "byMonthDay_part h x = []")
  case True
  then show ?thesis
    by (intro exI [where x = "byMonthDay e"]) (simp add: byMonthDay_part_def)
next
  case False
  then obtain ns where ns: "x = Some ns" "ns \<noteq> []"
    by (auto simp: byMonthDay_part_def split: option.splits if_splits)
  have "list_all safe_num ns" using assms ns(1) by simp
  note n = numbers_read_back [OF ns(2) this, of h]
  have "foldl (parse_part h) e (byMonthDay_part h x)
          = parse_part h e (''BYMONTHDAY='' @ join CHR '','' (map (num_to_string h) ns))"
    using ns by (simp add: byMonthDay_part_def)
  then have "foldl (parse_part h) e (byMonthDay_part h x) = e\<lparr>byMonthDay := Some ns\<rparr>"
    by (simp only: parse_part_known(6) [OF n(1,2)] n(4))
  then show ?thesis using ns(1) by (intro exI [where x = "Some ns"]) simp
qed

lemma byMonth_step:
  assumes "case x of None \<Rightarrow> True | Some ns \<Rightarrow> list_all safe_num ns"
  shows "\<exists>v. foldl (parse_part h) e (byMonth_part h x) = e\<lparr>byMonth := v\<rparr> \<and>
       (byMonth e = None \<longrightarrow> byMonth_part h v = byMonth_part h x)"
proof (cases "byMonth_part h x = []")
  case True
  then show ?thesis
    by (intro exI [where x = "byMonth e"]) (simp add: byMonth_part_def)
next
  case False
  then obtain ns where ns: "x = Some ns" "ns \<noteq> []"
    by (auto simp: byMonth_part_def split: option.splits if_splits)
  have "list_all safe_num ns" using assms ns(1) by simp
  note n = numbers_read_back [OF ns(2) this, of h]
  have "foldl (parse_part h) e (byMonth_part h x)
          = parse_part h e (''BYMONTH='' @ join CHR '','' (map (num_to_string h) ns))"
    using ns by (simp add: byMonth_part_def)
  then have "foldl (parse_part h) e (byMonth_part h x) = e\<lparr>byMonth := Some ns\<rparr>"
    by (simp only: parse_part_known(7) [OF n(1,2)] n(4))
  then show ?thesis using ns(1) by (intro exI [where x = "Some ns"]) simp
qed

lemma wkst_step:
  assumes "case x of None \<Rightarrow> True | Some w \<Rightarrow> text_ok w \<and> toUpperCase w = w"
  shows "\<exists>v. foldl (parse_part h) e (wkst_part x) = e\<lparr>wkst := v\<rparr> \<and>
             (wkst e = None \<longrightarrow> wkst_part v = wkst_part x)"
proof (cases "wkst_part x = []")
  case True
  then show ?thesis
    by (intro exI [where x = "wkst e"]) (simp add: wkst_part_def)
next
  case False
  then obtain w where w: "x = Some w" "w \<noteq> []"
    by (auto simp: wkst_part_def split: option.splits if_splits)
  have v: "CHR ''='' \<notin> set w" "toUpperCase w = w"
    using w assms by (simp_all add: text_ok_def)
  have "foldl (parse_part h) e (wkst_part x) = parse_part h e (''WKST='' @ w)"
    using w by (simp add: wkst_part_def)
  then have "foldl (parse_part h) e (wkst_part x) = e\<lparr>wkst := Some w\<rparr>"
    by (simp only: parse_part_known(8) [OF w(2) v(1)] v(2))
  then show ?thesis using w(1) by (intro exI [where x = "Some w"]) simp
qed

text \<open>No part of an expressible rule holds a semicolon.\<close>

lemma rule_parts_chars:
  assumes "expressible r"
  shows "\<forall>p\<in>set (rule_parts h r). CHR '';'' \<notin> set p"
proof -
  have 1: "\<forall>p\<in>set (freq_part (freq r)). CHR '';'' \<notin> set p"
    using assms
    by (auto simp: expressible_def freq_part_def text_ok_def toUpperCase_separator
          split: option.splits if_splits)
  have 2: "\<forall>p\<in>set (count_part h (count r)). CHR '';'' \<notin> set p"
    using assms num_to_string_chars(2)
    by (auto simp: expressible_def count_part_def split: option.splits if_splits)
  have 3: "\<forall>p\<in>set (until_part h (until r)). CHR '';'' \<notin> set p"
    using assms formatRRuleDate_chars(2)
    by (auto simp: expressible_def until_part_def split: option.splits)
  have 4: "\<forall>p\<in>set (interval_part h (interval r)). CHR '';'' \<notin> set p"
    using assms num_to_string_chars(2)
    by (auto simp: expressible_def interval_part_def split: option.splits if_splits)
  have 5: "\<forall>p\<in>set (byDay_part (byDay r)). CHR '';'' \<notin> set p"
  proof (cases "byDay r")
    case None
    then show ?thesis by (simp add: byDay_part_def)
  next
    case (Some ds)
    show ?thesis
    proof (cases "ds = []")
      case True
      then show ?thesis using Some by (simp add: byDay_part_def)
    next
      case False
      then have "\<forall>d\<in>set ds. CHR '';'' \<notin> set d"
        using assms Some by (auto simp: expressible_def list_all_iff text_ok_def)
      then have "CHR '';'' \<notin> set (join CHR '','' ds)"
        using join_set [of "CHR '',''" ds] by auto
      then show ?thesis using Some by (simp add: byDay_part_def)
    qed
  qed
  have 6: "\<forall>p\<in>set (byMonthDay_part h (byMonthDay r)). CHR '';'' \<notin> set p"
    using assms numbers_read_back(3)
    by (auto simp: expressible_def byMonthDay_part_def split: option.splits if_splits)
  have 7: "\<forall>p\<in>set (byMonth_part h (byMonth r)). CHR '';'' \<notin> set p"
    using assms numbers_read_back(3)
    by (auto simp: expressible_def byMonth_part_def split: option.splits if_splits)
  have 8: "\<forall>p\<in>set (wkst_part (wkst r)). CHR '';'' \<notin> set p"
    using assms
    by (auto simp: expressible_def wkst_part_def text_ok_def split: option.splits if_splits)
  show ?thesis
    unfolding rule_parts_def set_append using 1 2 3 4 5 6 7 8 by blast
qed

text \<open>Reading all parts of an expressible rule gives a rule with the same parts.\<close>

lemma rule_parts_read_back:
  assumes "expressible r"
  shows "rule_parts h (foldl (parse_part h) empty_rule (rule_parts h r)) = rule_parts h r"
proof -
  have ok: "case freq r of None \<Rightarrow> True | Some f \<Rightarrow> text_ok f"
    "case count r of None \<Rightarrow> True | Some c \<Rightarrow> safe_num c"
    "case until r of None \<Rightarrow> True | Some u \<Rightarrow> until_ok u"
    "case interval r of None \<Rightarrow> True | Some i \<Rightarrow> safe_num i"
    "case byDay r of None \<Rightarrow> True
     | Some ds \<Rightarrow> ds = [] \<or> (join CHR '','' ds \<noteq> [] \<and> list_all text_ok ds)"
    "case byMonthDay r of None \<Rightarrow> True | Some ns \<Rightarrow> list_all safe_num ns"
    "case byMonth r of None \<Rightarrow> True | Some ns \<Rightarrow> list_all safe_num ns"
    "case wkst r of None \<Rightarrow> True | Some w \<Rightarrow> text_ok w \<and> toUpperCase w = w"
    using assms by (simp_all add: expressible_def)
  define e1 where "e1 = foldl (parse_part h) empty_rule (freq_part (freq r))"
  define e2 where "e2 = foldl (parse_part h) e1 (count_part h (count r))"
  define e3 where "e3 = foldl (parse_part h) e2 (until_part h (until r))"
  define e4 where "e4 = foldl (parse_part h) e3 (interval_part h (interval r))"
  define e5 where "e5 = foldl (parse_part h) e4 (byDay_part (byDay r))"
  define e6 where "e6 = foldl (parse_part h) e5 (byMonthDay_part h (byMonthDay r))"
  define e7 where "e7 = foldl (parse_part h) e6 (byMonth_part h (byMonth r))"
  define e8 where "e8 = foldl (parse_part h) e7 (wkst_part (wkst r))"
  have all: "foldl (parse_part h) empty_rule (rule_parts h r) = e8"
    by (simp add: rule_parts_def e1_def e2_def e3_def e4_def e5_def e6_def e7_def e8_def)
  from freq_step [OF ok(1), of h empty_rule] obtain v1 where
    1: "e1 = empty_rule\<lparr>freq := v1\<rparr>" "freq_part v1 = freq_part (freq r)"
    unfolding e1_def by (auto simp: empty_rule_def)
  from count_step [OF ok(2), of h e1] obtain v2 where
    2: "e2 = e1\<lparr>count := v2\<rparr>" "count_part h v2 = count_part h (count r)"
    unfolding e2_def by (auto simp: 1(1) empty_rule_def)
  from until_step [OF ok(3), of h e2] obtain v3 where
    3: "e3 = e2\<lparr>until := v3\<rparr>" "until_part h v3 = until_part h (until r)"
    unfolding e3_def by (auto simp: 1(1) 2(1) empty_rule_def)
  from interval_step [OF ok(4), of h e3] obtain v4 where
    4: "e4 = e3\<lparr>interval := v4\<rparr>" "interval_part h v4 = interval_part h (interval r)"
    unfolding e4_def by (auto simp: 1(1) 2(1) 3(1) empty_rule_def)
  from byDay_step [OF ok(5), of h e4] obtain v5 where
    5: "e5 = e4\<lparr>byDay := v5\<rparr>" "byDay_part v5 = byDay_part (byDay r)"
    unfolding e5_def by (auto simp: 1(1) 2(1) 3(1) 4(1) empty_rule_def)
  from byMonthDay_step [OF ok(6), of h e5] obtain v6 where
    6: "e6 = e5\<lparr>byMonthDay := v6\<rparr>" "byMonthDay_part h v6 = byMonthDay_part h (byMonthDay r)"
    unfolding e6_def by (auto simp: 1(1) 2(1) 3(1) 4(1) 5(1) empty_rule_def)
  from byMonth_step [OF ok(7), of h e6] obtain v7 where
    7: "e7 = e6\<lparr>byMonth := v7\<rparr>" "byMonth_part h v7 = byMonth_part h (byMonth r)"
    unfolding e7_def by (auto simp: 1(1) 2(1) 3(1) 4(1) 5(1) 6(1) empty_rule_def)
  from wkst_step [OF ok(8), of h e7] obtain v8 where
    8: "e8 = e7\<lparr>wkst := v8\<rparr>" "wkst_part v8 = wkst_part (wkst r)"
    unfolding e8_def by (auto simp: 1(1) 2(1) 3(1) 4(1) 5(1) 6(1) 7(1) empty_rule_def)
  have "rule_parts h e8 = rule_parts h r"
    by (simp add: rule_parts_def 1 2 3 4 5 6 7 8)
  then show ?thesis by (simp add: all)
qed

text \<open>\<open>parseRRule\<close> on a text that \<open>formatRRule\<close> wrote reads the parts one by one.\<close>

lemma parseRRule_formatRRule:
  assumes "expressible r" "formatRRule h r \<noteq> []"
  shows "parseRRule h (formatRRule h r) = Some (foldl (parse_part h) empty_rule (rule_parts h r))"
proof -
  have ne: "rule_parts h r \<noteq> []"
    using assms(2) by (auto simp: formatRRule_parts split: if_splits)
  then have f: "formatRRule h r = ''RRULE:'' @ join CHR '';'' (rule_parts h r)"
    by (simp add: formatRRule_parts)
  have t: "take 6 (''RRULE:'' @ s) = ''RRULE:''" "drop 6 (''RRULE:'' @ s) = s" for s :: string
    by simp_all
  have "split_on CHR '';'' (join CHR '';'' (rule_parts h r)) = rule_parts h r"
    by (rule split_on_join [OF ne rule_parts_chars [OF assms(1)]])
  then show ?thesis
    unfolding f parseRRule_def Let_def t by (simp add: toUpperCase_keys)
qed

lemma reformat_formatRRule:
  assumes "expressible r" "formatRRule h r \<noteq> []"
  shows "reformat h (formatRRule h r) = Inr (formatRRule h r)"
proof -
  have "formatRRule h (foldl (parse_part h) empty_rule (rule_parts h r)) = formatRRule h r"
    by (simp only: formatRRule_parts rule_parts_read_back [OF assms(1)])
  then show ?thesis
    by (simp add: reformat_def parseRRule_formatRRule [OF assms])
qed


text \<open>
  For an expressible rule for which \<open>formatRRule\<close> writes at least one field, formatting,
  parsing and formatting again gives the text of the first formatting. That text is
  \<open>RRULE:\<close> and the parts of the fields that are present, joined by semicolons in the
  order \<open>FREQ\<close>, \<open>COUNT\<close>, \<open>UNTIL\<close>, \<open>INTERVAL\<close>, \<open>BYDAY\<close>, \<open>BYMONTHDAY\<close>,
  \<open>BYMONTH\<close>, \<open>WKST\<close>; and a rule with the interval 1 is written as the same rule
  without an interval.
\<close>

lemma formatRRule_round_trip:
  assumes "expressible r" "formatRRule h r \<noteq> []"
  shows "reformat h (formatRRule h r) = Inr (formatRRule h r)"
    and "formatRRule h r = ''RRULE:'' @ join CHR '';'' (rule_parts h r)"
    and "interval r = Some (Num 1) \<Longrightarrow> formatRRule h r = formatRRule h (r\<lparr>interval := None\<rparr>)"
proof -
  show "reformat h (formatRRule h r) = Inr (formatRRule h r)"
    by (rule reformat_formatRRule [OF assms])
  show "formatRRule h r = ''RRULE:'' @ join CHR '';'' (rule_parts h r)"
    using assms(2) by (auto simp: formatRRule_parts split: if_splits)
  assume "interval r = Some (Num 1)"
  then have "rule_parts h r = rule_parts h (r\<lparr>interval := None\<rparr>)"
    by (simp add: rule_parts_def interval_part_def num_gt_def)
  then show "formatRRule h r = formatRRule h (r\<lparr>interval := None\<rparr>)"
    by (simp only: formatRRule_parts)
qed

text \<open>The weekly sample rule is written, read and written again as the same text.\<close>

lemma formatRRule_weekly_rule:
  "reformat utc_host (formatRRule utc_host weekly_rule)
     = Inr ''RRULE:FREQ=WEEKLY;COUNT=12;UNTIL=20251231T235959Z;INTERVAL=2;BYDAY=MO,WE;WKST=MO''"
proof -
  have w: "expressible weekly_rule"
    "formatRRule utc_host weekly_rule
       = ''RRULE:FREQ=WEEKLY;COUNT=12;UNTIL=20251231T235959Z;INTERVAL=2;BYDAY=MO,WE;WKST=MO''"
    by code_simp+
  have ne: "formatRRule utc_host weekly_rule \<noteq> []"
    by (simp add: w(2))
  from formatRRule_round_trip(1) [OF w(1) ne] show ?thesis
    by (simp only: w(2))
qed

text \<open>
  C4. A daily rule until the first of January of the year 500 is written with a year of
  three digits, since \<open>formatRRuleDate\<close> pads every field but the year; the text is read
  back as the first of October of the year 5000 and written again as another text.
\<close>

theorem formatRRule_year_500_differs:
  "formatRRule utc_host year500_rule = ''RRULE:FREQ=DAILY;UNTIL=5000101T000000Z'' \<and>
   reformat utc_host (formatRRule utc_host year500_rule)
     = Inr ''RRULE:FREQ=DAILY;UNTIL=50001001T000000Z''"
  by code_simp

text \<open>
  The other conditions of the round trip are needed as well: the rule without any field
  is written as the empty text, which is parsed to \<open>null\<close>; and a week start in lower
  case is written as it is and read back in upper case.
\<close>

lemma reformat_empty_rule:
  "reformat h (formatRRule h empty_rule) = Inl (TypeError ''Cannot read properties of null'')"
  by (simp add: formatRRule_parts rule_parts_def empty_rule_def freq_part_def count_part_def
        until_part_def interval_part_def byDay_part_def byMonthDay_part_def byMonth_part_def
        wkst_part_def reformat_def parseRRule_def)

lemma reformat_lower_case_wkst:
  "formatRRule utc_host (empty_rule\<lparr>wkst := Some ''mo''\<rparr>) = ''RRULE:WKST=mo'' \<and>
   reformat utc_host (formatRRule utc_host (empty_rule\<lparr>wkst := Some ''mo''\<rparr>))
     = Inr ''RRULE:WKST=MO''"
  by code_simp









end
